theory Spec2Isabelle
  imports Main "HOL-Library.AList"
begin

section \<open>The Raft node of actormq (src/raft/node.go)\<close>

text \<open>
  The node is one actor: \<open>Receive\<close> handles one message at a time, mutates the
  fields of \<open>nodeActor\<close>, sends messages and re-arms timers, and then runs
  \<open>updateStateMachine\<close>. The model passes the node explicitly and returns it.

  Conventions of the model:
  \<^item> a \<open>uint64\<close> value is a natural number below \<open>2^64\<close>. Where the source
    increments or decrements a value that a message can bring to the end of the range, the
    wrap-around is written out (\<open>inc64\<close>, \<open>dec64\<close>): \<open>currentTerm++\<close>,
    \<open>newEntryIndex++\<close>, \<open>newEntryIndex-1\<close>, \<open>commitIndex+1\<close> and \<open>nextIndex - 1\<close>. The
    conversion \<open>int(x)\<close> of a \<open>uint64\<close> is \<open>toInt\<close>, negative from \<open>2^63\<close> on.
  \<^item> a slice is a list. Go's \<open>len\<close> is an \<open>int\<close>, so a slice has fewer than \<open>2^63\<close>
    elements and \<open>uint64(len(s))\<close> and \<open>int(len(s))\<close> are the length; the lists of the
    model have no bound, and a statement that needs the bound assumes it.
  \<^item> a slice index out of range is a panic: a handler returns \<open>Inl (IndexOutOfRange node)\<close>
    with the node as the panic found it (deferred calls having run), and \<open>Inr node\<close>
    when it returns.
  \<^item> \<open>act.Send\<close> appends to the trace \<open>sent\<close>; a call of \<open>config.Handler\<close> appends the
    command to the trace \<open>handled\<close>. Logging is not modelled.
  \<^item> a timer is the number of times it has been armed (\<open>time.NewTimer\<close>, \<open>Reset\<close>);
    every arming draws a fresh duration. Which timer channel the \<open>select\<close> of
    \<open>checkTimers\<close> finds ready is decided by the clock and is an input
    (\<open>act_Fired\<close>).
  \<^item> the two Go maps: \<open>nodes\<close> is an association list (the handlers range over it),
    \<open>pendingCommands\<close> a partial function. Go ranges over a map in no fixed order;
    the model ranges in list order, which is one of them.
\<close>

subsection \<open>Identities and messages\<close>

text \<open>
  Modelled from the spec: \<open>actor.PID\<close> belongs to the actor runtime and
  \<open>pidEquals\<close>, \<open>PIDToActorPID\<close> and \<open>ActorPIDToPID\<close> are not in src/. The spec
  describes a peer identity as an opaque value with equality and stringification, used as
  a map key. A PID is identified with the \<open>String()\<close> of its \<open>*actor.PID\<close>, the key of
  the peer table; a nil pointer is \<open>None\<close>; the two conversions are the identity.

  A message carries a PID as \<open>*actormq.PID\<close>, whose \<open>String()\<close> (src/actormq.pb.go)
  hands over to the protobuf runtime and gives the text format of the message. The
  runtime is not in src/: the text it gives for a PID is an input, \<open>act_Text\<close> of the
  context.
\<close>

type_synonym PID = string

definition pidEquals :: "PID option \<Rightarrow> PID option \<Rightarrow> bool" where
  "pidEquals a b = (a = b)"

record LogEntry =
  le_Command :: string
  le_Term :: nat

record AppendEntries =
  ae_Term :: nat
  ae_LeaderPID :: PID
  ae_PrevLogTerm :: nat
  ae_PrevLogIndex :: nat
  ae_Entries :: "LogEntry list"
  ae_LeaderCommit :: nat

record AppendEntriesResult =
  aer_PID :: PID
  aer_Term :: nat
  aer_Success :: bool

record RequestVote =
  rv_Term :: nat
  rv_CandidatePID :: PID
  rv_LastLogIndex :: nat
  rv_LastLogTerm :: nat

record RequestVoteResult =
  rvr_Term :: nat
  rvr_VoteGranted :: bool

record CommandResult =
  cr_Success :: bool
  cr_RedirectPID :: "PID option"

datatype message =
    MsgInitialized
  | MsgStarted
  | MsgRegisterNode
  | MsgActiveNodes "PID list"
  | MsgPing
  | MsgPong
  | MsgCommand string
  | MsgCommandResult CommandResult
  | MsgAppendEntries AppendEntries
  | MsgAppendEntriesResult AppendEntriesResult
  | MsgRequestVote RequestVote
  | MsgRequestVoteResult RequestVoteResult
  | MsgCheckTimers

subsection \<open>The node\<close>

record nodeMetadata =
  pid :: PID
  nextIndex :: nat
  matchIndex :: nat

record commandMetadata =
  sender :: "PID option"

text \<open>
  Modelled from the spec: the declaration of \<open>nodeStatus\<close> is not in src/. No function
  of node.go reads or writes the field; leadership is \<open>leader = self\<close>.
\<close>

datatype nodeStatus = Follower | Candidate | Leader

text \<open>
  Of the configuration, \<open>Handler\<close> is whether a handler is set (its calls are the trace
  \<open>handled\<close>); the logger is left out.
\<close>

record NodeConfig =
  DiscoveryPID :: "PID option"
  Handler :: bool

record nodeActor =
  config :: NodeConfig
  leader :: "PID option"
  currentTerm :: nat
  votedFor :: "PID option"
  log :: "LogEntry list"
  commitIndex :: nat
  lastApplied :: nat
  votes :: nat
  nodes :: "(string \<times> nodeMetadata) list"
  pendingCommands :: "nat \<rightharpoonup> commandMetadata"
  electionTimer :: nat
  heartbeatTimer :: nat
  status :: nodeStatus
  sent :: "(PID option \<times> message) list"
  handled :: "string list"

datatype timerChannel = HeartbeatFired | ElectionFired | NoTimerFired

record actorContext =
  act_PID :: PID
  act_Sender :: "PID option"
  act_Fired :: timerChannel
  act_Text :: "PID \<Rightarrow> string"

datatype panic = IndexOutOfRange nodeActor

datatype sendError = ServerDoesNotExist | NextIndexIsZero PID

definition send :: "PID option \<Rightarrow> message \<Rightarrow> nodeActor \<Rightarrow> nodeActor" where
  "send dest msg node = node\<lparr>sent := sent node @ [(dest, msg)]\<rparr>"

text \<open>The node a result holds, returned or panicked.\<close>

fun nodeOf :: "panic + nodeActor \<Rightarrow> nodeActor" where
  "nodeOf (Inl (IndexOutOfRange node)) = node"
| "nodeOf (Inr node) = node"

subsection \<open>Machine integers\<close>

text \<open>
  \<open>x++\<close> and \<open>x-1\<close> on a \<open>uint64\<close>, and the conversion \<open>int(x)\<close> to the 64-bit signed
  type: two's complement, so a value from \<open>2^63\<close> on is read as \<open>x - 2^64\<close>.
\<close>

definition inc64 :: "nat \<Rightarrow> nat" where
  "inc64 x = (if x = 2 ^ 64 - 1 then 0 else x + 1)"

definition dec64 :: "nat \<Rightarrow> nat" where
  "dec64 x = (if x = 0 then 2 ^ 64 - 1 else x - 1)"

definition toInt :: "nat \<Rightarrow> int" where
  "toInt x = (if x < 2 ^ 63 then int x else int x - 2 ^ 64)"

subsection \<open>Helpers of the handlers\<close>

definition lastLogIndexAndTerm :: "nodeActor \<Rightarrow> nat \<times> nat" where
  "lastLogIndexAndTerm node =
     (let lastLogIndex = length (log node);
          lastLogTerm = (if lastLogIndex > 0 then le_Term (log node ! (lastLogIndex - 1)) else 0)
      in (lastLogIndex, lastLogTerm))"

definition handleExternalTerm :: "nat \<Rightarrow> nodeActor \<Rightarrow> nodeActor" where
  "handleExternalTerm trm node =
     (if trm > currentTerm node
      then node\<lparr>currentTerm := trm, leader := None, votedFor := None\<rparr>
      else node)"

definition sendAppendEntries ::
  "actorContext \<Rightarrow> PID \<Rightarrow> nodeActor \<Rightarrow> panic + (sendError option \<times> nodeActor)" where
  "sendAppendEntries act p node =
     (case map_of (nodes node) p of
        None \<Rightarrow> Inr (Some ServerDoesNotExist, node)
      | Some metadata \<Rightarrow>
          if nextIndex metadata = 0 then Inr (Some (NextIndexIsZero p), node)
          else
            let lastLogIndex = fst (lastLogIndexAndTerm node);
                entries = (if lastLogIndex \<ge> nextIndex metadata
                           then drop (nextIndex metadata - 1) (log node) else []);
                prevLogIndex = nextIndex metadata - 1
            in if prevLogIndex > 0 \<and> \<not> prevLogIndex - 1 < length (log node)
               then Inl (IndexOutOfRange node)
               else
                 let prevLogTerm = (if prevLogIndex > 0
                                    then le_Term (log node ! (prevLogIndex - 1)) else 0)
                 in Inr (None,
                      send (Some (pid metadata))
                        (MsgAppendEntries
                           \<lparr>ae_Term = currentTerm node,
                            ae_LeaderPID = act_PID act,
                            ae_PrevLogTerm = prevLogTerm,
                            ae_PrevLogIndex = prevLogIndex,
                            ae_Entries = entries,
                            ae_LeaderCommit = commitIndex node\<rparr>)
                        node))"

text \<open>
  \<open>sendAppendEntriesAll\<close> ranges over the table; an error of \<open>sendAppendEntries\<close> is
  logged and the loop goes on.
\<close>

fun sendAppendEntriesLoop ::
  "actorContext \<Rightarrow> nodeMetadata list \<Rightarrow> nodeActor \<Rightarrow> panic + nodeActor" where
  "sendAppendEntriesLoop act [] node = Inr node"
| "sendAppendEntriesLoop act (metadata # rest) node =
     (case sendAppendEntries act (pid metadata) node of
        Inl p \<Rightarrow> Inl p
      | Inr (err, node') \<Rightarrow> sendAppendEntriesLoop act rest node')"

definition sendAppendEntriesAll :: "actorContext \<Rightarrow> nodeActor \<Rightarrow> panic + nodeActor" where
  "sendAppendEntriesAll act node = sendAppendEntriesLoop act (map snd (nodes node)) node"

subsection \<open>Membership and client commands\<close>

text \<open>
  \<open>handleActiveNodes\<close> makes a new table and ranges over the listed PIDs: a PID that is
  not the node's own and not yet in the new table gets an entry.
\<close>

fun activeNodesLoop ::
  "actorContext \<Rightarrow> nat \<Rightarrow> PID list \<Rightarrow> (string \<times> nodeMetadata) list
     \<Rightarrow> (string \<times> nodeMetadata) list" where
  "activeNodesLoop act lastLogIndex [] table = table"
| "activeNodesLoop act lastLogIndex (p # ps) table =
     activeNodesLoop act lastLogIndex ps
       (if \<not> pidEquals (Some p) (Some (act_PID act)) then
          (case map_of table p of
             None \<Rightarrow>
               table @ [(p, \<lparr>pid = p, nextIndex = lastLogIndex + 1, matchIndex = 0\<rparr>)]
           | Some _ \<Rightarrow> table)
        else table)"

definition handleActiveNodes :: "actorContext \<Rightarrow> PID list \<Rightarrow> nodeActor \<Rightarrow> nodeActor" where
  "handleActiveNodes act msgNodes node =
     (let node1 = node\<lparr>nodes := []\<rparr>;
          lastLogIndex = fst (lastLogIndexAndTerm node1)
      in node1\<lparr>nodes := activeNodesLoop act lastLogIndex msgNodes (nodes node1)\<rparr>)"

definition handleCommand :: "actorContext \<Rightarrow> string \<Rightarrow> nodeActor \<Rightarrow> panic + nodeActor" where
  "handleCommand act cmd node =
     (if pidEquals (leader node) (Some (act_PID act)) then
        let node1 = node\<lparr>log := log node @ [\<lparr>le_Command = cmd, le_Term = currentTerm node\<rparr>]\<rparr>;
            newLogIndex = length (log node1);
            node2 = node1\<lparr>pendingCommands :=
                      (pendingCommands node1)(newLogIndex \<mapsto> \<lparr>sender = act_Sender act\<rparr>)\<rparr>
        in sendAppendEntriesAll act node2
      else
        Inr (send (act_Sender act)
               (MsgCommandResult \<lparr>cr_Success = False, cr_RedirectPID = leader node\<rparr>) node))"

subsection \<open>AppendEntries\<close>

text \<open>
  The loop over \<open>msg.Entries\<close>: condition 3 cuts the log before a conflicting entry,
  condition 4 appends an entry the log does not hold yet. \<open>newEntryIndex\<close> is a
  \<open>uint64\<close> and is compared with \<open>len(node.log)\<close> as an \<open>int\<close>; when the comparison of
  condition 3 holds, \<open>node.log[newEntryIndex-1]\<close> is read, out of range a panic. The loop
  returns the log and \<open>newEntryIndex\<close>, or the log the panic found.
\<close>

fun appendEntriesLoop ::
  "LogEntry list \<Rightarrow> LogEntry list \<Rightarrow> nat \<Rightarrow> LogEntry list + LogEntry list \<times> nat" where
  "appendEntriesLoop [] lg newEntryIndex = Inr (lg, newEntryIndex)"
| "appendEntriesLoop (entry # entries) lg idx =
     (let newEntryIndex = inc64 idx in
      if int (length lg) \<ge> toInt newEntryIndex \<and> \<not> dec64 newEntryIndex < length lg
      then Inl lg
      else
        let lg1 = (if int (length lg) \<ge> toInt newEntryIndex
                      \<and> le_Term (lg ! dec64 newEntryIndex) \<noteq> le_Term entry
                   then take (dec64 newEntryIndex) lg else lg);
            lg2 = (if int (length lg1) < toInt newEntryIndex then lg1 @ [entry] else lg1)
        in appendEntriesLoop entries lg2 newEntryIndex)"

text \<open>
  The body of \<open>handleAppendEntries\<close> gives \<open>result.Success\<close> and the node, or panics:
  in condition 2, \<open>len(node.log) < int(msg.PrevLogIndex)\<close> is false for a
  \<open>PrevLogIndex\<close> from \<open>2^63\<close> on, and on a log that is not empty
  \<open>node.log[msg.PrevLogIndex-1]\<close> is read then.
\<close>

definition appendEntriesBody :: "AppendEntries \<Rightarrow> nodeActor \<Rightarrow> panic + bool \<times> nodeActor" where
  "appendEntriesBody msg node =
     (if ae_Term msg < currentTerm node then Inr (False, node)
      else
        let node1 = node\<lparr>leader := Some (ae_LeaderPID msg)\<rparr> in
        if ae_PrevLogIndex msg > 0
           \<and> int (length (log node1)) < toInt (ae_PrevLogIndex msg)
        then Inr (False, node1)
        else if ae_PrevLogIndex msg > 0 \<and> length (log node1) > 0
                \<and> \<not> ae_PrevLogIndex msg - 1 < length (log node1)
        then Inl (IndexOutOfRange node1)
        else if ae_PrevLogIndex msg > 0 \<and> length (log node1) > 0
                \<and> le_Term (log node1 ! (ae_PrevLogIndex msg - 1)) \<noteq> ae_PrevLogTerm msg
        then Inr (False, node1)
        else
          (case appendEntriesLoop (ae_Entries msg) (log node1) (ae_PrevLogIndex msg) of
             Inl lg \<Rightarrow> Inl (IndexOutOfRange (node1\<lparr>log := lg\<rparr>))
           | Inr (lg, newEntryIndex) \<Rightarrow>
               let node2 = node1\<lparr>log := lg\<rparr>;
                   node3 = (if ae_LeaderCommit msg > commitIndex node2
                            then node2\<lparr>commitIndex := min (ae_LeaderCommit msg) newEntryIndex\<rparr>
                            else node2)
               in Inr (True, node3\<lparr>electionTimer := Suc (electionTimer node3)\<rparr>)))"

text \<open>
  The deferred call sends the result with the node's identity and term, also when the
  body panics; \<open>result.Success\<close> is false then.
\<close>

definition appendEntriesResult :: "actorContext \<Rightarrow> bool \<Rightarrow> nodeActor \<Rightarrow> nodeActor" where
  "appendEntriesResult act success node =
     send (act_Sender act)
       (MsgAppendEntriesResult
          \<lparr>aer_PID = act_PID act, aer_Term = currentTerm node, aer_Success = success\<rparr>)
       node"

definition handleAppendEntries ::
  "actorContext \<Rightarrow> AppendEntries \<Rightarrow> nodeActor \<Rightarrow> panic + nodeActor" where
  "handleAppendEntries act msg node =
     (case appendEntriesBody msg node of
        Inl (IndexOutOfRange node') \<Rightarrow> Inl (IndexOutOfRange (appendEntriesResult act False node'))
      | Inr (success, node') \<Rightarrow> Inr (appendEntriesResult act success node'))"

text \<open>
  The peer is looked up under \<open>msg.PID.String()\<close>, the protobuf text of the PID in the
  message. On success \<open>matchIndex = nextIndex - 1\<close> is a \<open>uint64\<close> subtraction with no
  guard.
\<close>

definition handleAppendEntriesResult ::
  "actorContext \<Rightarrow> AppendEntriesResult \<Rightarrow> nodeActor \<Rightarrow> panic + nodeActor" where
  "handleAppendEntriesResult act msg node =
     (let key = act_Text act (aer_PID msg) in
      case map_of (nodes node) key of
        None \<Rightarrow> Inr node
      | Some metadata \<Rightarrow>
          if aer_Success msg then
            let lastLogIndex = fst (lastLogIndexAndTerm node);
                metadata1 = metadata\<lparr>matchIndex := dec64 (nextIndex metadata)\<rparr>;
                metadata2 = metadata1\<lparr>nextIndex := lastLogIndex + 1\<rparr>
            in Inr (node\<lparr>nodes := AList.update key metadata2 (nodes node)\<rparr>)
          else
            let metadata1 = (if nextIndex metadata > 1
                             then metadata\<lparr>nextIndex := nextIndex metadata - 1\<rparr>
                             else metadata);
                node1 = node\<lparr>nodes := AList.update key metadata1 (nodes node)\<rparr>
            in (case sendAppendEntries act (pid metadata1) node1 of
                  Inl p \<Rightarrow> Inl p
                | Inr (err, node2) \<Rightarrow> Inr node2))"

subsection \<open>Elections\<close>

text \<open>
  \<open>handleRequestVote\<close> reads \<open>log[lastApplied-1]\<close> when \<open>lastApplied\<close> is not 0; out of
  range that is a panic, and the deferred call still sends the result, with
  \<open>VoteGranted\<close> false.
\<close>

definition requestVoteResult :: "actorContext \<Rightarrow> bool \<Rightarrow> nodeActor \<Rightarrow> nodeActor" where
  "requestVoteResult act granted node =
     send (act_Sender act)
       (MsgRequestVoteResult \<lparr>rvr_Term = currentTerm node, rvr_VoteGranted = granted\<rparr>) node"

definition handleRequestVote ::
  "actorContext \<Rightarrow> RequestVote \<Rightarrow> nodeActor \<Rightarrow> panic + nodeActor" where
  "handleRequestVote act msg node =
     (if rv_Term msg < currentTerm node then Inr (requestVoteResult act False node)
      else
        let candidatePID = rv_CandidatePID msg in
        if votedFor node = None \<or> votedFor node = Some candidatePID then
          if rv_LastLogIndex msg \<ge> lastApplied node then
            if lastApplied node = 0 then
              Inr (requestVoteResult act True (node\<lparr>votedFor := Some candidatePID\<rparr>))
            else if \<not> lastApplied node - 1 < length (log node) then
              Inl (IndexOutOfRange (requestVoteResult act False node))
            else if rv_LastLogTerm msg \<ge> le_Term (log node ! (lastApplied node - 1)) then
              Inr (requestVoteResult act True (node\<lparr>votedFor := Some candidatePID\<rparr>))
            else Inr (requestVoteResult act False node)
          else Inr (requestVoteResult act False node)
        else Inr (requestVoteResult act False node))"

text \<open>
  \<open>float32(votes) / float32(len(nodes)) > 0.5\<close>: dividing a positive value by zero
  gives \<open>+Inf\<close>, and \<open>0 / 0\<close> is NaN, which compares false. For operands below
  \<open>2^24\<close> the conversion to \<open>float32\<close> is exact.
\<close>

definition votesOverHalf :: "nat \<Rightarrow> nat \<Rightarrow> bool" where
  "votesOverHalf v n = (if n = 0 then v > 0 else 2 * v > n)"

definition handleRequestVoteResult ::
  "actorContext \<Rightarrow> RequestVoteResult \<Rightarrow> nodeActor \<Rightarrow> panic + nodeActor" where
  "handleRequestVoteResult act msg node =
     (if rvr_VoteGranted msg \<and> rvr_Term msg = currentTerm node
         \<and> \<not> pidEquals (leader node) (Some (act_PID act)) then
        let node1 = node\<lparr>votes := votes node + 1\<rparr> in
        if votesOverHalf (votes node1) (length (nodes node1)) then
          let node2 = node1\<lparr>leader := Some (act_PID act)\<rparr>;
              lastLogIndex = fst (lastLogIndexAndTerm node2);
              node3 = node2\<lparr>nodes :=
                        map (\<lambda>(k, metadata).
                               (k, metadata\<lparr>nextIndex := lastLogIndex + 1, matchIndex := 0\<rparr>))
                            (nodes node2)\<rparr>
          in sendAppendEntriesAll act node3
        else Inr node1
      else Inr node)"

definition startElection :: "actorContext \<Rightarrow> nodeActor \<Rightarrow> nodeActor" where
  "startElection act node =
     (let node1 = node\<lparr>currentTerm := inc64 (currentTerm node), votes := 1,
                        votedFor := Some (act_PID act)\<rparr>
      in if length (nodes node1) + 1 < 3 then node1
         else
           let (lastLogIndex, lastLogTerm) = lastLogIndexAndTerm node1
           in fold (\<lambda>metadata.
                      send (Some (pid metadata))
                        (MsgRequestVote
                           \<lparr>rv_Term = currentTerm node1,
                            rv_CandidatePID = act_PID act,
                            rv_LastLogIndex = lastLogIndex,
                            rv_LastLogTerm = lastLogTerm\<rparr>))
                (map snd (nodes node1)) node1)"

subsection \<open>The advance step\<close>

text \<open>
  The leader's scan \<open>for i := len(log); i >= commitIndex+1; i--\<close>. \<open>matched\<close> counts
  the entries of the peer table with \<open>matchIndex >= i\<close>; the test is
  \<open>float32(matched) > float32(len(nodes))/2\<close>. The bound \<open>commitIndex+1\<close> is a \<open>uint64\<close>:
  the scan reaches \<open>i = 0\<close> only when the bound has wrapped to 0, and \<open>log[i-1]\<close> is
  then \<open>log[2^64-1]\<close>, an index no slice has.
\<close>

definition matched :: "nodeActor \<Rightarrow> nat \<Rightarrow> nat" where
  "matched node i = length (filter (\<lambda>metadata. matchIndex metadata \<ge> i) (map snd (nodes node)))"

fun commitScan :: "nodeActor \<Rightarrow> nat \<Rightarrow> panic + nodeActor" where
  "commitScan node 0 =
     (if 0 \<ge> inc64 (commitIndex node) then Inl (IndexOutOfRange node) else Inr node)"
| "commitScan node (Suc j) =
     (let i = Suc j in
      if i \<ge> inc64 (commitIndex node) then
        if le_Term (log node ! (i - 1)) = currentTerm node
           \<and> 2 * matched node i > length (nodes node)
        then Inr (node\<lparr>commitIndex := i\<rparr>)
        else commitScan node j
      else Inr node)"

text \<open>
  One round of the loop \<open>for commitIndex > lastApplied\<close>, after \<open>lastApplied++\<close> and
  with \<open>log[lastApplied-1]\<close> in range: the handler is called if there is one, and a
  pending command at this index is answered and deleted.
\<close>

definition applyEntry :: "nodeActor \<Rightarrow> nodeActor" where
  "applyEntry node =
     (let entry = log node ! (lastApplied node - 1);
          node1 = (if Handler (config node)
                   then node\<lparr>handled := handled node @ [le_Command entry]\<rparr> else node)
      in case pendingCommands node1 (lastApplied node1) of
           Some command \<Rightarrow>
             (send (sender command)
                (MsgCommandResult \<lparr>cr_Success = True, cr_RedirectPID = None\<rparr>) node1)
             \<lparr>pendingCommands := (pendingCommands node1)(lastApplied node1 := None)\<rparr>
         | None \<Rightarrow> node1)"

function applyLoop :: "nodeActor \<Rightarrow> panic + nodeActor" where
  "applyLoop node =
     (if commitIndex node > lastApplied node then
        let node1 = node\<lparr>lastApplied := lastApplied node + 1\<rparr> in
        if \<not> lastApplied node1 - 1 < length (log node1) then Inl (IndexOutOfRange node1)
        else applyLoop (applyEntry node1)
      else Inr node)"
  by pat_completeness auto
termination
  by (relation "measure (\<lambda>node. commitIndex node - lastApplied node)")
     (auto simp: applyEntry_def send_def Let_def split: option.splits)

declare applyLoop.simps [simp del]

definition updateStateMachine :: "actorContext \<Rightarrow> nodeActor \<Rightarrow> panic + nodeActor" where
  "updateStateMachine act node =
     (case (if pidEquals (leader node) (Some (act_PID act))
            then commitScan node (length (log node)) else Inr node) of
        Inl p \<Rightarrow> Inl p
      | Inr node1 \<Rightarrow> applyLoop node1)"

subsection \<open>Receive\<close>

text \<open>
  The \<open>select\<close> of \<open>checkTimers\<close> re-arms the timer whose channel it read.
  Modelled from the spec: \<open>sendWithDelay\<close> and \<open>newElectionTimoutDuration\<close> are not in
  src/. The spec has the tick scheduled again every 10 ms, taken here as a send to the
  node itself, and the election timeout drawn afresh at every arming.
\<close>

definition checkTimers :: "actorContext \<Rightarrow> nodeActor \<Rightarrow> panic + nodeActor" where
  "checkTimers act node =
     (case (case act_Fired act of
              HeartbeatFired \<Rightarrow>
                (let node1 = node\<lparr>heartbeatTimer := Suc (heartbeatTimer node)\<rparr>
                 in if pidEquals (leader node1) (Some (act_PID act))
                    then sendAppendEntriesAll act node1 else Inr node1)
            | ElectionFired \<Rightarrow>
                (let node1 = node\<lparr>electionTimer := Suc (electionTimer node)\<rparr>
                 in if \<not> pidEquals (Some (act_PID act)) (leader node1)
                    then Inr (startElection act node1) else Inr node1)
            | NoTimerFired \<Rightarrow> Inr node) of
        Inl p \<Rightarrow> Inl p
      | Inr node2 \<Rightarrow> Inr (send (Some (act_PID act)) MsgCheckTimers node2))"

fun dispatch :: "actorContext \<Rightarrow> message \<Rightarrow> nodeActor \<Rightarrow> panic + nodeActor" where
  "dispatch act MsgInitialized node =
     Inr (node\<lparr>nodes := [], pendingCommands := Map.empty,
               electionTimer := Suc (electionTimer node),
               heartbeatTimer := Suc (heartbeatTimer node)\<rparr>)"
| "dispatch act MsgStarted node =
     Inr (send (Some (act_PID act)) MsgCheckTimers
            (send (DiscoveryPID (config node)) MsgRegisterNode node))"
| "dispatch act (MsgActiveNodes msgNodes) node = Inr (handleActiveNodes act msgNodes node)"
| "dispatch act MsgPing node = Inr (send (act_Sender act) MsgPong node)"
| "dispatch act (MsgCommand cmd) node = handleCommand act cmd node"
| "dispatch act (MsgAppendEntries msg) node =
     handleAppendEntries act msg (handleExternalTerm (ae_Term msg) node)"
| "dispatch act (MsgAppendEntriesResult msg) node =
     handleAppendEntriesResult act msg (handleExternalTerm (aer_Term msg) node)"
| "dispatch act (MsgRequestVote msg) node =
     handleRequestVote act msg (handleExternalTerm (rv_Term msg) node)"
| "dispatch act (MsgRequestVoteResult msg) node =
     handleRequestVoteResult act msg (handleExternalTerm (rvr_Term msg) node)"
| "dispatch act MsgCheckTimers node = checkTimers act node"
| "dispatch act MsgRegisterNode node = Inr node"
| "dispatch act MsgPong node = Inr node"
| "dispatch act (MsgCommandResult r) node = Inr node"

definition Receive :: "actorContext \<Rightarrow> message \<Rightarrow> nodeActor \<Rightarrow> panic + nodeActor" where
  "Receive act msg node =
     (case dispatch act msg node of
        Inl p \<Rightarrow> Inl p
      | Inr node' \<Rightarrow> updateStateMachine act node')"

section \<open>Definitions for stating the properties\<close>

text \<open>The term a peer message carries: the argument \<open>Receive\<close> gives \<open>handleExternalTerm\<close>.\<close>

fun peerTerm :: "message \<Rightarrow> nat option" where
  "peerTerm (MsgAppendEntries msg) = Some (ae_Term msg)"
| "peerTerm (MsgAppendEntriesResult msg) = Some (aer_Term msg)"
| "peerTerm (MsgRequestVote msg) = Some (rv_Term msg)"
| "peerTerm (MsgRequestVoteResult msg) = Some (rvr_Term msg)"
| "peerTerm _ = None"

text \<open>
  The condition for granting a vote as the specification words it, on the node the
  handler is entered with. The read of \<open>log[lastApplied-1]\<close> is bounded by the length of
  the log.
\<close>

definition voteGrantedSpec :: "RequestVote \<Rightarrow> nodeActor \<Rightarrow> bool" where
  "voteGrantedSpec msg node =
     (rv_Term msg \<ge> currentTerm node
      \<and> (votedFor node = None \<or> votedFor node = Some (rv_CandidatePID msg))
      \<and> rv_LastLogIndex msg \<ge> lastApplied node
      \<and> (lastApplied node = 0
          \<or> (lastApplied node \<le> length (log node)
              \<and> rv_LastLogTerm msg \<ge> le_Term (log node ! (lastApplied node - 1)))))"

text \<open>
  An entry of the message conflicts with the log: the log holds an entry at the index the
  message gives it, and the terms differ. \<open>idx\<close> counts from \<open>msg.PrevLogIndex\<close>, the
  0-based position of the first entry.
\<close>

fun conflicts :: "LogEntry list \<Rightarrow> LogEntry list \<Rightarrow> nat \<Rightarrow> bool" where
  "conflicts [] lg idx = False"
| "conflicts (entry # entries) lg idx =
     ((idx < length lg \<and> le_Term (lg ! idx) \<noteq> le_Term entry)
      \<or> conflicts entries lg (idx + 1))"

definition logIndexInvariant :: "nodeActor \<Rightarrow> bool" where
  "logIndexInvariant node =
     (lastApplied node \<le> commitIndex node \<and> commitIndex node \<le> length (log node))"

text \<open>
  \<open>result.Success\<close>: the body of \<open>handleAppendEntries\<close> returns and has accepted the
  message.
\<close>

definition accepts :: "AppendEntries \<Rightarrow> nodeActor \<Rightarrow> bool" where
  "accepts msg node =
     (case appendEntriesBody msg node of Inl p \<Rightarrow> False | Inr (success, node') \<Rightarrow> success)"

text \<open>
  The message passes conditions 1 and 2 and the body reaches the loop over the entries.
\<close>

definition passesConditions :: "AppendEntries \<Rightarrow> nodeActor \<Rightarrow> bool" where
  "passesConditions msg node =
     (ae_Term msg \<ge> currentTerm node
      \<and> (ae_PrevLogIndex msg = 0
          \<or> (\<not> int (length (log node)) < toInt (ae_PrevLogIndex msg)
              \<and> (log node = []
                  \<or> (ae_PrevLogIndex msg - 1 < length (log node)
                      \<and> le_Term (log node ! (ae_PrevLogIndex msg - 1))
                          = ae_PrevLogTerm msg)))))"

text \<open>The node the body leaves, returned or at the panic.\<close>

fun bodyNode :: "panic + bool \<times> nodeActor \<Rightarrow> nodeActor" where
  "bodyNode (Inl (IndexOutOfRange node)) = node"
| "bodyNode (Inr (success, node)) = node"

text \<open>The log the loop over the entries leaves, returned or at the panic.\<close>

fun loopLog :: "LogEntry list + LogEntry list \<times> nat \<Rightarrow> LogEntry list" where
  "loopLog (Inl lg) = lg"
| "loopLog (Inr (lg, newEntryIndex)) = lg"

text \<open>
  What the types of Go give: the log is a slice and has fewer than \<open>2^63\<close> entries, and
  \<open>PrevLogIndex\<close>, which the handler converts and counts on from, is a \<open>uint64\<close>.
\<close>

definition validNode :: "nodeActor \<Rightarrow> bool" where
  "validNode node = (length (log node) < 2 ^ 63)"

fun validMessage :: "message \<Rightarrow> bool" where
  "validMessage (MsgAppendEntries msg) = (ae_PrevLogIndex msg < 2 ^ 64)"
| "validMessage _ = True"

text \<open>
  The AppendEntries messages that break the invariant. The message is accepted and
  \<^item> \<open>LeaderCommit\<close> is above \<open>commitIndex\<close> and the last entry has an index
    \<open>PrevLogIndex + len(Entries)\<close> below \<open>lastApplied\<close>: condition 5 lowers \<open>commitIndex\<close>
    below \<open>lastApplied\<close>;
  \<^item> or \<open>LeaderCommit\<close> is above \<open>commitIndex\<close> and \<open>PrevLogIndex\<close> is \<open>2^63\<close> or more:
    condition 2 reads it as a negative \<open>int\<close> and lets it pass on an empty log, and
    condition 5 raises \<open>commitIndex\<close> above the length of the log;
  \<^item> or \<open>LeaderCommit\<close> is not above \<open>commitIndex\<close>, the last entry has an index below
    \<open>commitIndex\<close> and an entry conflicts: condition 3 cuts the log below \<open>commitIndex\<close>.
\<close>

fun unsafeAppendEntries :: "message \<Rightarrow> nodeActor \<Rightarrow> bool" where
  "unsafeAppendEntries (MsgAppendEntries msg) node =
     (accepts msg (handleExternalTerm (ae_Term msg) node)
      \<and> (if ae_LeaderCommit msg > commitIndex node
          then ae_PrevLogIndex msg + length (ae_Entries msg) < lastApplied node
               \<or> ae_PrevLogIndex msg \<ge> 2 ^ 63
          else ae_PrevLogIndex msg + length (ae_Entries msg) < commitIndex node
               \<and> conflicts (ae_Entries msg) (log node) (ae_PrevLogIndex msg)))"
| "unsafeAppendEntries _ node = False"

text \<open>
  Modelled from the spec: the actor runtime is not in src/. It delivers the messages of
  the mailbox one at a time, and \<open>Receive\<close> handles each on the node the previous one
  left; a panic ends the run.
\<close>

fun ReceiveAll :: "(actorContext \<times> message) list \<Rightarrow> nodeActor \<Rightarrow> panic + nodeActor" where
  "ReceiveAll [] node = Inr node"
| "ReceiveAll ((act, m) # rest) node =
     (case Receive act m node of Inl p \<Rightarrow> Inl p | Inr node' \<Rightarrow> ReceiveAll rest node')"

text \<open>
  A run of valid messages on valid nodes, none of the messages unsafe for the node that
  handles it.
\<close>

fun safeRun :: "(actorContext \<times> message) list \<Rightarrow> nodeActor \<Rightarrow> bool" where
  "safeRun [] node = True"
| "safeRun ((act, m) # rest) node =
     (validNode node \<and> validMessage m \<and> \<not> unsafeAppendEntries m node
      \<and> (case Receive act m node of Inl p \<Rightarrow> True | Inr node' \<Rightarrow> safeRun rest node'))"

text \<open>
  The AppendEntries messages for which condition 5 lowers \<open>commitIndex\<close>: the message is
  accepted, \<open>LeaderCommit\<close> is above \<open>commitIndex\<close>, and the index of the last new entry
  is below it.
\<close>

fun lowersCommitIndex :: "message \<Rightarrow> nodeActor \<Rightarrow> bool" where
  "lowersCommitIndex (MsgAppendEntries msg) node =
     (accepts msg (handleExternalTerm (ae_Term msg) node)
      \<and> ae_LeaderCommit msg > commitIndex node
      \<and> ae_PrevLogIndex msg + length (ae_Entries msg) < commitIndex node)"
| "lowersCommitIndex _ node = False"

text \<open>
  \<open>startElection\<close> runs at the end of the range of the term: the election timer has
  fired at a node that is not the leader and whose term is \<open>2^64 - 1\<close>.
\<close>

definition electionWrapsTerm :: "actorContext \<Rightarrow> message \<Rightarrow> nodeActor \<Rightarrow> bool" where
  "electionWrapsTerm act m node =
     (m = MsgCheckTimers \<and> act_Fired act = ElectionFired
      \<and> \<not> pidEquals (Some (act_PID act)) (leader node)
      \<and> currentTerm node = 2 ^ 64 - 1)"

text \<open>
  The map of pending commands as the handler of a message leaves it: \<open>Initialized\<close>
  makes a new map, and the leader enters the sender of a command at the index of the
  new entry, over what the map held there.
\<close>

fun pendingAfterHandler ::
  "actorContext \<Rightarrow> message \<Rightarrow> nodeActor \<Rightarrow> nat \<rightharpoonup> commandMetadata" where
  "pendingAfterHandler act MsgInitialized node = Map.empty"
| "pendingAfterHandler act (MsgCommand cmd) node =
     (if pidEquals (leader node) (Some (act_PID act))
      then (pendingCommands node)(length (log node) + 1 \<mapsto> \<lparr>sender = act_Sender act\<rparr>)
      else pendingCommands node)"
| "pendingAfterHandler act m node = pendingCommands node"

text \<open>
  The test of the leader's scan at index \<open>i\<close>: the entry has the current term and more
  than half of the entries of the peer table have \<open>matchIndex >= i\<close>.
\<close>

definition committable :: "nodeActor \<Rightarrow> nat \<Rightarrow> bool" where
  "committable node i =
     (le_Term (log node ! (i - 1)) = currentTerm node
      \<and> 2 * matched node i > length (nodes node))"

text \<open>The reply \<open>updateStateMachine\<close> sends to the client of an applied command.\<close>

definition commandApplied :: message where
  "commandApplied = MsgCommandResult \<lparr>cr_Success = True, cr_RedirectPID = None\<rparr>"

subsection \<open>Example nodes\<close>

text \<open>
  \<open>NewNode\<close> gives the zero value of every field but \<open>config\<close>. The two maps are nil
  until \<open>Initialized\<close> makes them; the runtime sends \<open>Initialized\<close> first, and the model
  has them empty from the start.
\<close>

definition NewNode :: "NodeConfig \<Rightarrow> nodeActor" where
  "NewNode cfg =
     \<lparr>config = cfg, leader = None, currentTerm = 0, votedFor = None, log = [],
      commitIndex = 0, lastApplied = 0, votes = 0, nodes = [], pendingCommands = Map.empty,
      electionTimer = 0, heartbeatTimer = 0, status = Follower, sent = [], handled = []\<rparr>"

definition exampleConfig :: NodeConfig where
  "exampleConfig = \<lparr>DiscoveryPID = Some ''discovery'', Handler = True\<rparr>"

definition peer :: "PID \<Rightarrow> nat \<Rightarrow> nat \<Rightarrow> string \<times> nodeMetadata" where
  "peer p ni mi = (p, \<lparr>pid = p, nextIndex = ni, matchIndex = mi\<rparr>)"

text \<open>
  In the examples the protobuf text of a PID is its one field, the name and the quoted
  value.
\<close>

definition protoText :: "PID \<Rightarrow> string" where
  "protoText p = ''ID:'' @ [CHR 0x22] @ p @ [CHR 0x22]"

text \<open>
  The context of a message from \<open>sndr\<close> handled by the node \<open>self\<close>, and of the tick
  that finds the election timer expired.
\<close>

definition ctx :: "PID \<Rightarrow> PID \<Rightarrow> actorContext" where
  "ctx self sndr =
     \<lparr>act_PID = self, act_Sender = Some sndr, act_Fired = NoTimerFired, act_Text = protoText\<rparr>"

definition electionTick :: "PID \<Rightarrow> actorContext" where
  "electionTick self =
     \<lparr>act_PID = self, act_Sender = Some self, act_Fired = ElectionFired, act_Text = protoText\<rparr>"

text \<open>
  A is the leader of term 1 in a cluster of three, with one entry of its term in the log
  and the client's command pending at index 1.
\<close>

definition leaderA :: nodeActor where
  "leaderA = (NewNode exampleConfig)
     \<lparr>leader := Some ''A'', currentTerm := 1, votedFor := Some ''A'', votes := 2,
      log := [\<lparr>le_Command = ''x=1'', le_Term = 1\<rparr>],
      nodes := [peer ''B'' 2 0, peer ''C'' 2 0],
      pendingCommands := [1 \<mapsto> \<lparr>sender = Some ''client''\<rparr>]\<rparr>"

text \<open>A is a candidate of term 1 in a cluster of five and has its own vote.\<close>

definition candidateA :: nodeActor where
  "candidateA = (NewNode exampleConfig)
     \<lparr>currentTerm := 1, votedFor := Some ''A'', votes := 1,
      nodes := [peer ''B'' 1 0, peer ''C'' 1 0, peer ''D'' 1 0, peer ''E'' 1 0]\<rparr>"

definition grantTerm1 :: message where
  "grantTerm1 = MsgRequestVoteResult \<lparr>rvr_Term = 1, rvr_VoteGranted = True\<rparr>"

definition candidateA1 :: nodeActor where
  "candidateA1 = nodeOf (Receive (ctx ''A'' ''B'') grantTerm1 candidateA)"

definition candidateA2 :: nodeActor where
  "candidateA2 = nodeOf (Receive (ctx ''A'' ''B'') grantTerm1 candidateA1)"

text \<open>A follower whose table holds B with cursors 2 and 1, and a log of two entries.\<close>

definition tableNode :: nodeActor where
  "tableNode = (NewNode exampleConfig)
     \<lparr>currentTerm := 1,
      log := [\<lparr>le_Command = ''x=1'', le_Term = 1\<rparr>, \<lparr>le_Command = ''y=2'', le_Term = 1\<rparr>],
      nodes := [peer ''B'' 2 1]\<rparr>"

definition voteForA :: RequestVote where
  "voteForA = \<lparr>rv_Term = 1, rv_CandidatePID = ''A'', rv_LastLogIndex = 0, rv_LastLogTerm = 0\<rparr>"

definition voteForB2 :: RequestVote where
  "voteForB2 = \<lparr>rv_Term = 2, rv_CandidatePID = ''B'', rv_LastLogIndex = 1, rv_LastLogTerm = 1\<rparr>"

text \<open>
  The leader A when \<open>matchIndex\<close> of B has reached the entry, and when \<open>matchIndex\<close> of C
  has reached it as well.
\<close>

definition leaderAB :: nodeActor where
  "leaderAB = leaderA\<lparr>nodes := [peer ''B'' 2 1, peer ''C'' 2 0]\<rparr>"

definition leaderABC :: nodeActor where
  "leaderABC = leaderA\<lparr>nodes := [peer ''B'' 2 1, peer ''C'' 2 1]\<rparr>"

text \<open>The same leader with \<open>commitIndex\<close> at the end of the range.\<close>

definition lastIndexLeader :: nodeActor where
  "lastIndexLeader = leaderABC\<lparr>commitIndex := 2 ^ 64 - 1\<rparr>"

text \<open>
  A node with no peer: after \<open>Initialized\<close> it handles a granting RequestVoteResult of
  its term 0, which makes it the leader, and then a client's command.
\<close>

definition soloRun :: "(actorContext \<times> message) list" where
  "soloRun = [(ctx ''A'' ''A'', MsgInitialized),
              (ctx ''A'' ''B'', MsgRequestVoteResult \<lparr>rvr_Term = 0, rvr_VoteGranted = True\<rparr>),
              (ctx ''A'' ''client'', MsgCommand ''x=1'')]"

definition soloLeader :: nodeActor where
  "soloLeader = nodeOf (ReceiveAll soloRun (NewNode exampleConfig))"

text \<open>
  A message of term 2 from B, a new leader: no entry, the entry before is A's entry at
  index 1, and the leader has committed it.
\<close>

definition heartbeatB2 :: AppendEntries where
  "heartbeatB2 =
     \<lparr>ae_Term = 2, ae_LeaderPID = ''B'', ae_PrevLogTerm = 1, ae_PrevLogIndex = 1,
      ae_Entries = [], ae_LeaderCommit = 1\<rparr>"

definition demotedA :: nodeActor where
  "demotedA = nodeOf (Receive (ctx ''A'' ''B'') (MsgAppendEntries heartbeatB2) leaderA)"

text \<open>
  The leader A with a second pending command, at index 2, beyond its log of one entry:
  the entry of index 2 was cut from the log while A followed another leader.
\<close>

definition staleLeaderA :: nodeActor where
  "staleLeaderA = leaderA
     \<lparr>pendingCommands := [1 \<mapsto> \<lparr>sender = Some ''client''\<rparr>,
                          2 \<mapsto> \<lparr>sender = Some ''client2''\<rparr>]\<rparr>"

definition staleLeaderA2 :: nodeActor where
  "staleLeaderA2 = nodeOf (Receive (ctx ''A'' ''client3'') (MsgCommand ''y=2'') staleLeaderA)"

text \<open>
  A vote result of the last term of the range, not granting, and the run of a new node
  that handles it and then finds its election timer expired.
\<close>

definition lastTermResult :: message where
  "lastTermResult = MsgRequestVoteResult \<lparr>rvr_Term = 2 ^ 64 - 1, rvr_VoteGranted = False\<rparr>"

definition lastTermNode :: nodeActor where
  "lastTermNode =
     nodeOf (ReceiveAll [(ctx ''A'' ''A'', MsgInitialized), (ctx ''A'' ''B'', lastTermResult)]
               (NewNode exampleConfig))"

text \<open>
  B follows A in term 1; its two entries are committed and applied.
\<close>

definition followerB :: nodeActor where
  "followerB = (NewNode exampleConfig)
     \<lparr>leader := Some ''A'', currentTerm := 1,
      log := [\<lparr>le_Command = ''x=1'', le_Term = 1\<rparr>, \<lparr>le_Command = ''y=2'', le_Term = 1\<rparr>],
      commitIndex := 2, lastApplied := 2\<rparr>"

text \<open>A's message with a third entry after the two B holds, committed by the leader.\<close>

definition appendThird :: AppendEntries where
  "appendThird =
     \<lparr>ae_Term = 1, ae_LeaderPID = ''A'', ae_PrevLogTerm = 1, ae_PrevLogIndex = 2,
      ae_Entries = [\<lparr>le_Command = ''z=3'', le_Term = 1\<rparr>], ae_LeaderCommit = 3\<rparr>"

definition followerB3 :: nodeActor where
  "followerB3 = nodeOf (Receive (ctx ''B'' ''A'') (MsgAppendEntries appendThird) followerB)"

text \<open>A message of term 2 from C whose one entry, at index 1, has term 2.\<close>

definition conflictingEntry :: AppendEntries where
  "conflictingEntry =
     \<lparr>ae_Term = 2, ae_LeaderPID = ''C'', ae_PrevLogTerm = 0, ae_PrevLogIndex = 0,
      ae_Entries = [\<lparr>le_Command = ''z=3'', le_Term = 2\<rparr>], ae_LeaderCommit = 0\<rparr>"

text \<open>A message of term 1 with no entry, \<open>PrevLogIndex = 0\<close> and \<open>LeaderCommit = 3\<close>.\<close>

definition emptyFromStart :: AppendEntries where
  "emptyFromStart =
     \<lparr>ae_Term = 1, ae_LeaderPID = ''A'', ae_PrevLogTerm = 0, ae_PrevLogIndex = 0,
      ae_Entries = [], ae_LeaderCommit = 3\<rparr>"

text \<open>
  A new node after \<open>Initialized\<close>, and a message of term 1 with no entry,
  \<open>PrevLogIndex = 2^63\<close> and \<open>LeaderCommit = 5\<close>.
\<close>

definition initialized :: nodeActor where
  "initialized = (NewNode exampleConfig)\<lparr>electionTimer := 1, heartbeatTimer := 1\<rparr>"

definition negativePrevLogIndex :: AppendEntries where
  "negativePrevLogIndex =
     \<lparr>ae_Term = 1, ae_LeaderPID = ''A'', ae_PrevLogTerm = 0, ae_PrevLogIndex = 2 ^ 63,
      ae_Entries = [], ae_LeaderCommit = 5\<rparr>"

text \<open>B handles A's message with the third entry twice.\<close>

definition replayRun :: "(actorContext \<times> message) list" where
  "replayRun = [(ctx ''B'' ''A'', MsgAppendEntries appendThird),
                (ctx ''B'' ''A'', MsgAppendEntries appendThird)]"

section \<open>Machine integers\<close>

lemma inc64_mod: "x < 2 ^ 64 \<Longrightarrow> inc64 x = (x + 1) mod 2 ^ 64"
  by (auto simp: inc64_def)

lemma dec64_mod: "x < 2 ^ 64 \<Longrightarrow> dec64 x = (x + (2 ^ 64 - 1)) mod 2 ^ 64"
  by (auto simp: dec64_def mod_if)

lemma inc64_small: "x + 1 < 2 ^ 63 \<Longrightarrow> inc64 x = x + 1"
  by (simp add: inc64_def)

lemma toInt_small: "x < 2 ^ 63 \<Longrightarrow> toInt x = int x"
  by (simp add: toInt_def)

lemma toInt_large: "2 ^ 63 \<le> x \<Longrightarrow> x < 2 ^ 64 \<Longrightarrow> toInt x < 0"
  by (simp add: toInt_def)

lemma dec64_Suc: "dec64 (x + 1) = x"
  by (simp add: dec64_def)

lemma inc64_le: "x \<noteq> 2 ^ 64 - 1 \<Longrightarrow> inc64 x = x + 1"
  by (simp add: inc64_def)

lemma inc64_0: "inc64 x = 0 \<longleftrightarrow> x = 2 ^ 64 - 1"
  by (simp add: inc64_def)

section \<open>What each handler leaves unchanged\<close>

lemma send_fields [simp]:
  "config (send d m node) = config node"
  "leader (send d m node) = leader node"
  "currentTerm (send d m node) = currentTerm node"
  "votedFor (send d m node) = votedFor node"
  "log (send d m node) = log node"
  "commitIndex (send d m node) = commitIndex node"
  "lastApplied (send d m node) = lastApplied node"
  "votes (send d m node) = votes node"
  "nodes (send d m node) = nodes node"
  "pendingCommands (send d m node) = pendingCommands node"
  "electionTimer (send d m node) = electionTimer node"
  "heartbeatTimer (send d m node) = heartbeatTimer node"
  "handled (send d m node) = handled node"
  "sent (send d m node) = sent node @ [(d, m)]"
  by (simp_all add: send_def)

text \<open>Sending AppendEntries changes nothing but the trace of sent messages.\<close>

lemma sendAppendEntries_frame:
  "sendAppendEntries act p node = Inr (err, node') \<Longrightarrow> \<exists>ms. node' = node\<lparr>sent := sent node @ ms\<rparr>"
  unfolding sendAppendEntries_def
  by (auto simp: send_def Let_def split: option.splits if_splits intro: exI[of _ "[]"])

lemma sendAppendEntries_panic:
  "sendAppendEntries act p node = Inl q \<Longrightarrow> q = IndexOutOfRange node"
  unfolding sendAppendEntries_def
  by (auto simp: Let_def split: option.splits if_splits)

lemma sendAppendEntriesLoop_frame:
  "\<exists>ms. nodeOf (sendAppendEntriesLoop act l node) = node\<lparr>sent := sent node @ ms\<rparr>"
proof (induction l arbitrary: node)
  case Nil
  show ?case by (auto intro: exI[of _ "[]"])
next
  case (Cons m l)
  show ?case
  proof (cases "sendAppendEntries act (pid m) node")
    case (Inl q)
    then show ?thesis using sendAppendEntries_panic[OF Inl]
      by (auto intro: exI[of _ "[]"])
  next
    case (Inr r)
    obtain err node' where r: "r = (err, node')" by (cases r)
    from Inr r sendAppendEntries_frame obtain ms where n': "node' = node\<lparr>sent := sent node @ ms\<rparr>"
      by blast
    from Cons.IH[of node'] obtain ms' where "nodeOf (sendAppendEntriesLoop act l node') = node'\<lparr>sent := sent node' @ ms'\<rparr>"
      by blast
    then show ?thesis using Inr r n' by (auto intro: exI[of _ "ms @ ms'"])
  qed
qed

lemma sendAppendEntriesAll_frame:
  "\<exists>ms. nodeOf (sendAppendEntriesAll act node) = node\<lparr>sent := sent node @ ms\<rparr>"
  unfolding sendAppendEntriesAll_def by (rule sendAppendEntriesLoop_frame)


lemma applyEntry_fields [simp]:
  "config (applyEntry node) = config node"
  "leader (applyEntry node) = leader node"
  "currentTerm (applyEntry node) = currentTerm node"
  "votedFor (applyEntry node) = votedFor node"
  "log (applyEntry node) = log node"
  "commitIndex (applyEntry node) = commitIndex node"
  "lastApplied (applyEntry node) = lastApplied node"
  "votes (applyEntry node) = votes node"
  "nodes (applyEntry node) = nodes node"
  "electionTimer (applyEntry node) = electionTimer node"
  "heartbeatTimer (applyEntry node) = heartbeatTimer node"
  by (simp_all add: applyEntry_def Let_def split: option.splits)

lemma applyLoop_fields:
  "config (nodeOf (applyLoop node)) = config node
   \<and> leader (nodeOf (applyLoop node)) = leader node
   \<and> currentTerm (nodeOf (applyLoop node)) = currentTerm node
   \<and> votedFor (nodeOf (applyLoop node)) = votedFor node
   \<and> log (nodeOf (applyLoop node)) = log node
   \<and> commitIndex (nodeOf (applyLoop node)) = commitIndex node
   \<and> votes (nodeOf (applyLoop node)) = votes node
   \<and> nodes (nodeOf (applyLoop node)) = nodes node
   \<and> electionTimer (nodeOf (applyLoop node)) = electionTimer node
   \<and> heartbeatTimer (nodeOf (applyLoop node)) = heartbeatTimer node"
proof (induction node rule: applyLoop.induct)
  case (1 node)
  show ?case
  proof (cases "commitIndex node > lastApplied node")
    case False
    then show ?thesis by (simp add: applyLoop.simps[of node])
  next
    case True
    let ?n1 = "node\<lparr>lastApplied := lastApplied node + 1\<rparr>"
    show ?thesis
    proof (cases "lastApplied ?n1 - 1 < length (log ?n1)")
      case False
      with True show ?thesis by (simp add: applyLoop.simps[of node])
    next
      case inr: True
      have "applyLoop node = applyLoop (applyEntry ?n1)"
        using True inr by (simp add: applyLoop.simps[of node])
      moreover note "1.IH"[OF True refl] 
      ultimately show ?thesis using inr by simp
    qed
  qed
qed

lemma commitScan_frame:
  "\<exists>c. nodeOf (commitScan node n) = node\<lparr>commitIndex := c\<rparr>
       \<and> c \<le> max (commitIndex node) n
       \<and> (commitIndex node \<noteq> 2 ^ 64 - 1 \<or> n = 0 \<longrightarrow> commitIndex node \<le> c)
       \<and> (commitIndex node \<noteq> 2 ^ 64 - 1 \<longrightarrow> \<not> isl (commitScan node n))"
proof (induction n)
  case 0
  show ?case by (auto simp: inc64_0 intro: exI[of _ "commitIndex node"])
next
  case (Suc j)
  then obtain c where c: "nodeOf (commitScan node j) = node\<lparr>commitIndex := c\<rparr>"
    "c \<le> max (commitIndex node) j"
    "commitIndex node \<noteq> 2 ^ 64 - 1 \<longrightarrow> commitIndex node \<le> c"
    "commitIndex node \<noteq> 2 ^ 64 - 1 \<longrightarrow> \<not> isl (commitScan node j)"
    by blast
  show ?case
  proof (cases "Suc j \<ge> inc64 (commitIndex node)")
    case False
    then show ?thesis by (auto intro: exI[of _ "commitIndex node"])
  next
    case True
    show ?thesis
    proof (cases "le_Term (log node ! j) = currentTerm node
                  \<and> 2 * matched node (Suc j) > length (nodes node)")
      case t: True
      have "commitIndex node \<noteq> 2 ^ 64 - 1 \<longrightarrow> commitIndex node \<le> Suc j"
        using True by (auto simp: inc64_def)
      with True t show ?thesis by (auto intro: exI[of _ "Suc j"])
    next
      case False
      with True c show ?thesis by (auto intro: exI[of _ c])
    qed
  qed
qed

lemma commitScan_fields [simp]:
  "config (nodeOf (commitScan node n)) = config node"
  "leader (nodeOf (commitScan node n)) = leader node"
  "currentTerm (nodeOf (commitScan node n)) = currentTerm node"
  "votedFor (nodeOf (commitScan node n)) = votedFor node"
  "log (nodeOf (commitScan node n)) = log node"
  "lastApplied (nodeOf (commitScan node n)) = lastApplied node"
  "votes (nodeOf (commitScan node n)) = votes node"
  "nodes (nodeOf (commitScan node n)) = nodes node"
  "pendingCommands (nodeOf (commitScan node n)) = pendingCommands node"
  "electionTimer (nodeOf (commitScan node n)) = electionTimer node"
  "heartbeatTimer (nodeOf (commitScan node n)) = heartbeatTimer node"
  "sent (nodeOf (commitScan node n)) = sent node"
  "handled (nodeOf (commitScan node n)) = handled node"
  using commitScan_frame[of node n] by auto

lemma commitScan_commitIndex:
  "commitIndex node \<noteq> 2 ^ 64 - 1 \<or> n = 0 \<Longrightarrow>
   commitIndex node \<le> commitIndex (nodeOf (commitScan node n))"
  using commitScan_frame[of node n] by auto

lemma nodeOf_bind:
  "nodeOf (case r of Inl p \<Rightarrow> Inl p | Inr n \<Rightarrow> Inr (f n)) = (if isl r then nodeOf r else f (nodeOf r))"
  by (cases r) auto

lemma nodeOf_bind2:
  "nodeOf (case r of Inl p \<Rightarrow> Inl p | Inr n \<Rightarrow> g n) = (if isl r then nodeOf r else nodeOf (g (nodeOf r)))"
  by (cases r) auto

lemma updateStateMachine_nodeOf:
  "nodeOf (updateStateMachine act node) =
     (if pidEquals (leader node) (Some (act_PID act))
      then (if isl (commitScan node (length (log node)))
            then nodeOf (commitScan node (length (log node)))
            else nodeOf (applyLoop (nodeOf (commitScan node (length (log node))))))
      else nodeOf (applyLoop node))"
  by (simp add: updateStateMachine_def nodeOf_bind2)

lemma updateStateMachine_fields:
  "config (nodeOf (updateStateMachine act node)) = config node
   \<and> leader (nodeOf (updateStateMachine act node)) = leader node
   \<and> currentTerm (nodeOf (updateStateMachine act node)) = currentTerm node
   \<and> votedFor (nodeOf (updateStateMachine act node)) = votedFor node
   \<and> log (nodeOf (updateStateMachine act node)) = log node
   \<and> votes (nodeOf (updateStateMachine act node)) = votes node
   \<and> nodes (nodeOf (updateStateMachine act node)) = nodes node
   \<and> electionTimer (nodeOf (updateStateMachine act node)) = electionTimer node
   \<and> heartbeatTimer (nodeOf (updateStateMachine act node)) = heartbeatTimer node"
  using applyLoop_fields[of node]
    applyLoop_fields[of "nodeOf (commitScan node (length (log node)))"]
  by (simp add: updateStateMachine_nodeOf)

lemma updateStateMachine_commitIndex:
  "commitIndex node \<noteq> 2 ^ 64 - 1 \<or> log node = [] \<Longrightarrow>
   commitIndex node \<le> commitIndex (nodeOf (updateStateMachine act node))"
  using applyLoop_fields[of node]
    applyLoop_fields[of "nodeOf (commitScan node (length (log node)))"]
    commitScan_commitIndex[of node "length (log node)"]
  by (auto simp: updateStateMachine_nodeOf)

lemma Receive_nodeOf:
  "nodeOf (Receive act m node) =
     (case dispatch act m node of Inl p \<Rightarrow> nodeOf (Inl p) | Inr node' \<Rightarrow> nodeOf (updateStateMachine act node'))"
  by (simp add: Receive_def split: sum.splits)

lemma sendAppendEntriesLoop_fields [simp]:
  "config (nodeOf (sendAppendEntriesLoop act l node)) = config node"
  "leader (nodeOf (sendAppendEntriesLoop act l node)) = leader node"
  "currentTerm (nodeOf (sendAppendEntriesLoop act l node)) = currentTerm node"
  "votedFor (nodeOf (sendAppendEntriesLoop act l node)) = votedFor node"
  "log (nodeOf (sendAppendEntriesLoop act l node)) = log node"
  "commitIndex (nodeOf (sendAppendEntriesLoop act l node)) = commitIndex node"
  "lastApplied (nodeOf (sendAppendEntriesLoop act l node)) = lastApplied node"
  "votes (nodeOf (sendAppendEntriesLoop act l node)) = votes node"
  "nodes (nodeOf (sendAppendEntriesLoop act l node)) = nodes node"
  "pendingCommands (nodeOf (sendAppendEntriesLoop act l node)) = pendingCommands node"
  "electionTimer (nodeOf (sendAppendEntriesLoop act l node)) = electionTimer node"
  "heartbeatTimer (nodeOf (sendAppendEntriesLoop act l node)) = heartbeatTimer node"
  "handled (nodeOf (sendAppendEntriesLoop act l node)) = handled node"
  using sendAppendEntriesLoop_frame[of act l node] by auto

lemma sendAppendEntriesAll_fields [simp]:
  "config (nodeOf (sendAppendEntriesAll act node)) = config node"
  "leader (nodeOf (sendAppendEntriesAll act node)) = leader node"
  "currentTerm (nodeOf (sendAppendEntriesAll act node)) = currentTerm node"
  "votedFor (nodeOf (sendAppendEntriesAll act node)) = votedFor node"
  "log (nodeOf (sendAppendEntriesAll act node)) = log node"
  "commitIndex (nodeOf (sendAppendEntriesAll act node)) = commitIndex node"
  "lastApplied (nodeOf (sendAppendEntriesAll act node)) = lastApplied node"
  "votes (nodeOf (sendAppendEntriesAll act node)) = votes node"
  "nodes (nodeOf (sendAppendEntriesAll act node)) = nodes node"
  "pendingCommands (nodeOf (sendAppendEntriesAll act node)) = pendingCommands node"
  "electionTimer (nodeOf (sendAppendEntriesAll act node)) = electionTimer node"
  "heartbeatTimer (nodeOf (sendAppendEntriesAll act node)) = heartbeatTimer node"
  "handled (nodeOf (sendAppendEntriesAll act node)) = handled node"
  by (simp_all add: sendAppendEntriesAll_def)

lemma sendAppendEntries_nodeOf:
  "\<exists>ms. nodeOf (case sendAppendEntries act p node of Inl q \<Rightarrow> Inl q | Inr (err, n2) \<Rightarrow> Inr n2)
          = node\<lparr>sent := sent node @ ms\<rparr>"
proof (cases "sendAppendEntries act p node")
  case (Inl q)
  then show ?thesis using sendAppendEntries_panic[OF Inl] by (auto intro: exI[of _ "[]"])
next
  case (Inr r)
  then show ?thesis using sendAppendEntries_frame[of act p node "fst r" "snd r"]
    by (cases r) auto
qed

lemma sendAppendEntries_fields [simp]:
  "config (nodeOf (case sendAppendEntries act p node of Inl q \<Rightarrow> Inl q | Inr (err, n2) \<Rightarrow> Inr n2)) = config node"
  "leader (nodeOf (case sendAppendEntries act p node of Inl q \<Rightarrow> Inl q | Inr (err, n2) \<Rightarrow> Inr n2)) = leader node"
  "currentTerm (nodeOf (case sendAppendEntries act p node of Inl q \<Rightarrow> Inl q | Inr (err, n2) \<Rightarrow> Inr n2)) = currentTerm node"
  "votedFor (nodeOf (case sendAppendEntries act p node of Inl q \<Rightarrow> Inl q | Inr (err, n2) \<Rightarrow> Inr n2)) = votedFor node"
  "log (nodeOf (case sendAppendEntries act p node of Inl q \<Rightarrow> Inl q | Inr (err, n2) \<Rightarrow> Inr n2)) = log node"
  "commitIndex (nodeOf (case sendAppendEntries act p node of Inl q \<Rightarrow> Inl q | Inr (err, n2) \<Rightarrow> Inr n2)) = commitIndex node"
  "lastApplied (nodeOf (case sendAppendEntries act p node of Inl q \<Rightarrow> Inl q | Inr (err, n2) \<Rightarrow> Inr n2)) = lastApplied node"
  "votes (nodeOf (case sendAppendEntries act p node of Inl q \<Rightarrow> Inl q | Inr (err, n2) \<Rightarrow> Inr n2)) = votes node"
  "nodes (nodeOf (case sendAppendEntries act p node of Inl q \<Rightarrow> Inl q | Inr (err, n2) \<Rightarrow> Inr n2)) = nodes node"
  "pendingCommands (nodeOf (case sendAppendEntries act p node of Inl q \<Rightarrow> Inl q | Inr (err, n2) \<Rightarrow> Inr n2)) = pendingCommands node"
  "electionTimer (nodeOf (case sendAppendEntries act p node of Inl q \<Rightarrow> Inl q | Inr (err, n2) \<Rightarrow> Inr n2)) = electionTimer node"
  "heartbeatTimer (nodeOf (case sendAppendEntries act p node of Inl q \<Rightarrow> Inl q | Inr (err, n2) \<Rightarrow> Inr n2)) = heartbeatTimer node"
  "handled (nodeOf (case sendAppendEntries act p node of Inl q \<Rightarrow> Inl q | Inr (err, n2) \<Rightarrow> Inr n2)) = handled node"
  using sendAppendEntries_nodeOf[of act p node] by auto

lemma handleAppendEntriesResult_fields [simp]:
  "config (nodeOf (handleAppendEntriesResult act msg node)) = config node"
  "leader (nodeOf (handleAppendEntriesResult act msg node)) = leader node"
  "currentTerm (nodeOf (handleAppendEntriesResult act msg node)) = currentTerm node"
  "votedFor (nodeOf (handleAppendEntriesResult act msg node)) = votedFor node"
  "log (nodeOf (handleAppendEntriesResult act msg node)) = log node"
  "commitIndex (nodeOf (handleAppendEntriesResult act msg node)) = commitIndex node"
  "lastApplied (nodeOf (handleAppendEntriesResult act msg node)) = lastApplied node"
  "votes (nodeOf (handleAppendEntriesResult act msg node)) = votes node"
  "pendingCommands (nodeOf (handleAppendEntriesResult act msg node)) = pendingCommands node"
  "electionTimer (nodeOf (handleAppendEntriesResult act msg node)) = electionTimer node"
  "heartbeatTimer (nodeOf (handleAppendEntriesResult act msg node)) = heartbeatTimer node"
  "handled (nodeOf (handleAppendEntriesResult act msg node)) = handled node"
  by (simp_all add: handleAppendEntriesResult_def Let_def split: option.splits)

lemma handleRequestVoteResult_fields [simp]:
  "config (nodeOf (handleRequestVoteResult act msg node)) = config node"
  "currentTerm (nodeOf (handleRequestVoteResult act msg node)) = currentTerm node"
  "votedFor (nodeOf (handleRequestVoteResult act msg node)) = votedFor node"
  "log (nodeOf (handleRequestVoteResult act msg node)) = log node"
  "commitIndex (nodeOf (handleRequestVoteResult act msg node)) = commitIndex node"
  "lastApplied (nodeOf (handleRequestVoteResult act msg node)) = lastApplied node"
  "pendingCommands (nodeOf (handleRequestVoteResult act msg node)) = pendingCommands node"
  "electionTimer (nodeOf (handleRequestVoteResult act msg node)) = electionTimer node"
  "heartbeatTimer (nodeOf (handleRequestVoteResult act msg node)) = heartbeatTimer node"
  "handled (nodeOf (handleRequestVoteResult act msg node)) = handled node"
  by (simp_all add: handleRequestVoteResult_def Let_def)

lemma handleCommand_fields [simp]:
  "config (nodeOf (handleCommand act cmd node)) = config node"
  "leader (nodeOf (handleCommand act cmd node)) = leader node"
  "currentTerm (nodeOf (handleCommand act cmd node)) = currentTerm node"
  "votedFor (nodeOf (handleCommand act cmd node)) = votedFor node"
  "commitIndex (nodeOf (handleCommand act cmd node)) = commitIndex node"
  "lastApplied (nodeOf (handleCommand act cmd node)) = lastApplied node"
  "votes (nodeOf (handleCommand act cmd node)) = votes node"
  "nodes (nodeOf (handleCommand act cmd node)) = nodes node"
  "electionTimer (nodeOf (handleCommand act cmd node)) = electionTimer node"
  "heartbeatTimer (nodeOf (handleCommand act cmd node)) = heartbeatTimer node"
  "handled (nodeOf (handleCommand act cmd node)) = handled node"
  by (simp_all add: handleCommand_def Let_def)

lemma handleRequestVote_fields [simp]:
  "config (nodeOf (handleRequestVote act msg node)) = config node"
  "leader (nodeOf (handleRequestVote act msg node)) = leader node"
  "currentTerm (nodeOf (handleRequestVote act msg node)) = currentTerm node"
  "log (nodeOf (handleRequestVote act msg node)) = log node"
  "commitIndex (nodeOf (handleRequestVote act msg node)) = commitIndex node"
  "lastApplied (nodeOf (handleRequestVote act msg node)) = lastApplied node"
  "votes (nodeOf (handleRequestVote act msg node)) = votes node"
  "nodes (nodeOf (handleRequestVote act msg node)) = nodes node"
  "pendingCommands (nodeOf (handleRequestVote act msg node)) = pendingCommands node"
  "electionTimer (nodeOf (handleRequestVote act msg node)) = electionTimer node"
  "heartbeatTimer (nodeOf (handleRequestVote act msg node)) = heartbeatTimer node"
  "handled (nodeOf (handleRequestVote act msg node)) = handled node"
  by (simp_all add: handleRequestVote_def requestVoteResult_def Let_def)

lemma handleActiveNodes_fields [simp]:
  "config (handleActiveNodes act ps node) = config node"
  "leader (handleActiveNodes act ps node) = leader node"
  "currentTerm (handleActiveNodes act ps node) = currentTerm node"
  "votedFor (handleActiveNodes act ps node) = votedFor node"
  "log (handleActiveNodes act ps node) = log node"
  "commitIndex (handleActiveNodes act ps node) = commitIndex node"
  "lastApplied (handleActiveNodes act ps node) = lastApplied node"
  "votes (handleActiveNodes act ps node) = votes node"
  "pendingCommands (handleActiveNodes act ps node) = pendingCommands node"
  "electionTimer (handleActiveNodes act ps node) = electionTimer node"
  "heartbeatTimer (handleActiveNodes act ps node) = heartbeatTimer node"
  "handled (handleActiveNodes act ps node) = handled node"
  by (simp_all add: handleActiveNodes_def Let_def)

lemma fold_send_frame:
  "\<exists>ms. fold (\<lambda>m. send (f m) (g m)) l node = node\<lparr>sent := sent node @ ms\<rparr>"
proof (induction l arbitrary: node)
  case Nil
  show ?case by (auto intro: exI[of _ "[]"])
next
  case (Cons m l)
  from Cons[of "send (f m) (g m) node"] show ?case by (auto simp: send_def)
qed

lemma fold_send_fields [simp]:
  "config (fold (\<lambda>m. send (f m) (g m)) l node) = config node"
  "leader (fold (\<lambda>m. send (f m) (g m)) l node) = leader node"
  "currentTerm (fold (\<lambda>m. send (f m) (g m)) l node) = currentTerm node"
  "votedFor (fold (\<lambda>m. send (f m) (g m)) l node) = votedFor node"
  "log (fold (\<lambda>m. send (f m) (g m)) l node) = log node"
  "commitIndex (fold (\<lambda>m. send (f m) (g m)) l node) = commitIndex node"
  "lastApplied (fold (\<lambda>m. send (f m) (g m)) l node) = lastApplied node"
  "votes (fold (\<lambda>m. send (f m) (g m)) l node) = votes node"
  "nodes (fold (\<lambda>m. send (f m) (g m)) l node) = nodes node"
  "pendingCommands (fold (\<lambda>m. send (f m) (g m)) l node) = pendingCommands node"
  "electionTimer (fold (\<lambda>m. send (f m) (g m)) l node) = electionTimer node"
  "heartbeatTimer (fold (\<lambda>m. send (f m) (g m)) l node) = heartbeatTimer node"
  "handled (fold (\<lambda>m. send (f m) (g m)) l node) = handled node"
  using fold_send_frame[of f g l node] by auto

lemma startElection_fields [simp]:
  "config (startElection act node) = config node"
  "leader (startElection act node) = leader node"
  "log (startElection act node) = log node"
  "commitIndex (startElection act node) = commitIndex node"
  "lastApplied (startElection act node) = lastApplied node"
  "nodes (startElection act node) = nodes node"
  "pendingCommands (startElection act node) = pendingCommands node"
  "electionTimer (startElection act node) = electionTimer node"
  "heartbeatTimer (startElection act node) = heartbeatTimer node"
  "handled (startElection act node) = handled node"
  by (simp_all add: startElection_def Let_def split: prod.splits)

lemma checkTimers_fields [simp]:
  "config (nodeOf (checkTimers act node)) = config node"
  "leader (nodeOf (checkTimers act node)) = leader node"
  "log (nodeOf (checkTimers act node)) = log node"
  "commitIndex (nodeOf (checkTimers act node)) = commitIndex node"
  "lastApplied (nodeOf (checkTimers act node)) = lastApplied node"
  "nodes (nodeOf (checkTimers act node)) = nodes node"
  "pendingCommands (nodeOf (checkTimers act node)) = pendingCommands node"
  "handled (nodeOf (checkTimers act node)) = handled node"
  by (simp_all add: checkTimers_def Let_def nodeOf_bind split: timerChannel.splits)

lemma appendEntriesResult_fields [simp]:
  "config (appendEntriesResult act s node) = config node"
  "leader (appendEntriesResult act s node) = leader node"
  "currentTerm (appendEntriesResult act s node) = currentTerm node"
  "votedFor (appendEntriesResult act s node) = votedFor node"
  "log (appendEntriesResult act s node) = log node"
  "commitIndex (appendEntriesResult act s node) = commitIndex node"
  "lastApplied (appendEntriesResult act s node) = lastApplied node"
  "votes (appendEntriesResult act s node) = votes node"
  "nodes (appendEntriesResult act s node) = nodes node"
  "pendingCommands (appendEntriesResult act s node) = pendingCommands node"
  "electionTimer (appendEntriesResult act s node) = electionTimer node"
  "heartbeatTimer (appendEntriesResult act s node) = heartbeatTimer node"
  "handled (appendEntriesResult act s node) = handled node"
  by (simp_all add: appendEntriesResult_def)

lemma appendEntriesBody_cases:
  obtains (panic) node' where "appendEntriesBody msg node = Inl (IndexOutOfRange node')"
  | (reply) success node' where "appendEntriesBody msg node = Inr (success, node')"
proof (cases "appendEntriesBody msg node")
  case (Inl p)
  then show ?thesis using panic by (cases p) auto
next
  case (Inr r)
  then show ?thesis using reply by (cases r) auto
qed

text \<open>
  \<open>handleAppendEntries\<close> leaves the node of the body with the result sent, and panics
  when the body does.
\<close>

lemma handleAppendEntries_nodeOf:
  "nodeOf (handleAppendEntries act msg node) =
     appendEntriesResult act (accepts msg node) (bodyNode (appendEntriesBody msg node))"
  by (cases msg node rule: appendEntriesBody_cases)
     (simp_all add: handleAppendEntries_def accepts_def)

lemma handleAppendEntries_isl:
  "isl (handleAppendEntries act msg node) = isl (appendEntriesBody msg node)"
  by (cases msg node rule: appendEntriesBody_cases) (simp_all add: handleAppendEntries_def)

lemma bodyNode_fields [simp]:
  "config (bodyNode (appendEntriesBody msg node)) = config node"
  "currentTerm (bodyNode (appendEntriesBody msg node)) = currentTerm node"
  "votedFor (bodyNode (appendEntriesBody msg node)) = votedFor node"
  "lastApplied (bodyNode (appendEntriesBody msg node)) = lastApplied node"
  "votes (bodyNode (appendEntriesBody msg node)) = votes node"
  "nodes (bodyNode (appendEntriesBody msg node)) = nodes node"
  "pendingCommands (bodyNode (appendEntriesBody msg node)) = pendingCommands node"
  "heartbeatTimer (bodyNode (appendEntriesBody msg node)) = heartbeatTimer node"
  "handled (bodyNode (appendEntriesBody msg node)) = handled node"
  "sent (bodyNode (appendEntriesBody msg node)) = sent node"
  by (simp_all add: appendEntriesBody_def Let_def split: sum.splits prod.splits)

lemma handleAppendEntries_fields [simp]:
  "config (nodeOf (handleAppendEntries act msg node)) = config node"
  "currentTerm (nodeOf (handleAppendEntries act msg node)) = currentTerm node"
  "votedFor (nodeOf (handleAppendEntries act msg node)) = votedFor node"
  "lastApplied (nodeOf (handleAppendEntries act msg node)) = lastApplied node"
  "votes (nodeOf (handleAppendEntries act msg node)) = votes node"
  "nodes (nodeOf (handleAppendEntries act msg node)) = nodes node"
  "pendingCommands (nodeOf (handleAppendEntries act msg node)) = pendingCommands node"
  "heartbeatTimer (nodeOf (handleAppendEntries act msg node)) = heartbeatTimer node"
  "handled (nodeOf (handleAppendEntries act msg node)) = handled node"
  by (simp_all add: handleAppendEntries_nodeOf)

lemma handleExternalTerm_fields [simp]:
  "config (handleExternalTerm t node) = config node"
  "log (handleExternalTerm t node) = log node"
  "commitIndex (handleExternalTerm t node) = commitIndex node"
  "lastApplied (handleExternalTerm t node) = lastApplied node"
  "votes (handleExternalTerm t node) = votes node"
  "nodes (handleExternalTerm t node) = nodes node"
  "pendingCommands (handleExternalTerm t node) = pendingCommands node"
  "electionTimer (handleExternalTerm t node) = electionTimer node"
  "heartbeatTimer (handleExternalTerm t node) = heartbeatTimer node"
  "handled (handleExternalTerm t node) = handled node"
  by (simp_all add: handleExternalTerm_def)


lemma handleExternalTerm_currentTerm [simp]:
  "currentTerm (handleExternalTerm t node) = max t (currentTerm node)"
  by (simp add: handleExternalTerm_def)

lemma startElection_currentTerm [simp]:
  "currentTerm (startElection act node) = inc64 (currentTerm node)"
  by (simp add: startElection_def Let_def split: prod.splits)

lemma dispatch_currentTerm:
  "currentTerm (nodeOf (dispatch act m node)) =
     (case peerTerm m of
        Some t \<Rightarrow> max t (currentTerm node)
      | None \<Rightarrow>
          if m = MsgCheckTimers \<and> act_Fired act = ElectionFired
             \<and> \<not> pidEquals (Some (act_PID act)) (leader node)
          then inc64 (currentTerm node) else currentTerm node)"
  by (cases m) (simp_all add: checkTimers_def nodeOf_bind Let_def split: timerChannel.splits)

lemma Receive_currentTerm:
  "currentTerm (nodeOf (Receive act m node)) = currentTerm (nodeOf (dispatch act m node))"
  by (cases "dispatch act m node") (simp_all add: Receive_def updateStateMachine_fields)


section \<open>The loop over the entries of an AppendEntries message\<close>

text \<open>
  While \<open>newEntryIndex\<close> stays below \<open>2^63\<close> the conversions are exact and the read of
  condition 3 is in range.
\<close>

lemma appendEntriesLoop_step:
  "idx + 1 < 2 ^ 63 \<Longrightarrow>
   appendEntriesLoop (e # es) lg idx =
     appendEntriesLoop es
       (let lg1 = (if length lg \<ge> idx + 1 \<and> le_Term (lg ! idx) \<noteq> le_Term e
                   then take idx lg else lg)
        in if length lg1 < idx + 1 then lg1 @ [e] else lg1)
       (idx + 1)"
proof -
  assume a: "idx + 1 < 2 ^ 63"
  have i: "inc64 idx = idx + 1" using a by (rule inc64_small)
  have t: "toInt (idx + 1) = int (idx + 1)" using a by (rule toInt_small)
  have d: "dec64 (idx + 1) = idx" by (rule dec64_Suc)
  have p: "\<not> (int (length lg) \<ge> int (idx + 1) \<and> \<not> idx < length lg)" by auto
  show ?thesis
    unfolding appendEntriesLoop.simps Let_def i t d using p by auto
qed

lemma appendEntriesLoop_returns:
  "idx + length es < 2 ^ 63 \<Longrightarrow>
   \<exists>lg'. appendEntriesLoop es lg idx = Inr (lg', idx + length es)"
proof (induction es arbitrary: lg idx)
  case Nil
  show ?case by simp
next
  case (Cons e es)
  from Cons.prems have s: "idx + 1 < 2 ^ 63" and r: "idx + 1 + length es < 2 ^ 63" by simp_all
  from Cons.IH[OF r] show ?case unfolding appendEntriesLoop_step[OF s] by simp
qed

lemma appendEntriesLoop_snd:
  "idx + length es < 2 ^ 63 \<Longrightarrow> appendEntriesLoop es lg idx = Inr (lg', n) \<Longrightarrow>
   n = idx + length es"
  using appendEntriesLoop_returns[of idx es lg] by auto

lemma appendEntriesLoop_terms:
  "idx \<le> length lg \<Longrightarrow> idx + length es < 2 ^ 63 \<Longrightarrow>
     idx + length es \<le> length (loopLog (appendEntriesLoop es lg idx))
     \<and> take idx (loopLog (appendEntriesLoop es lg idx)) = take idx lg
     \<and> (\<forall>k < length es.
           le_Term (loopLog (appendEntriesLoop es lg idx) ! (idx + k)) = le_Term (es ! k))"
proof (induction es arbitrary: lg idx)
  case Nil
  then show ?case by simp
next
  case (Cons e es)
  from Cons.prems have s: "idx + 1 < 2 ^ 63" and r: "idx + 1 + length es < 2 ^ 63" by simp_all
  define lg1 where "lg1 = (if length lg \<ge> idx + 1 \<and> le_Term (lg ! idx) \<noteq> le_Term e
                 then take idx lg else lg)"
  define lg2 where "lg2 = (if length lg1 < idx + 1 then lg1 @ [e] else lg1)"
  have step: "appendEntriesLoop (e # es) lg idx = appendEntriesLoop es lg2 (idx + 1)"
    unfolding appendEntriesLoop_step[OF s] by (simp add: Let_def lg1_def lg2_def)
  have l2: "idx + 1 \<le> length lg2" "take idx lg2 = take idx lg" "le_Term (lg2 ! idx) = le_Term e"
    using Cons.prems(1) by (auto simp: lg1_def lg2_def nth_append)
  let ?r = "loopLog (appendEntriesLoop es lg2 (idx + 1))"
  from Cons.IH[OF l2(1) r] have ih:
    "idx + 1 + length es \<le> length ?r" "take (idx + 1) ?r = take (idx + 1) lg2"
    "\<forall>k < length es. le_Term (?r ! (idx + 1 + k)) = le_Term (es ! k)"
    by auto
  have a: "take idx ?r = take idx lg"
  proof -
    have "take idx ?r = take idx (take (idx + 1) ?r)" by simp
    also have "\<dots> = take idx (take (idx + 1) lg2)" by (simp only: ih(2))
    also have "\<dots> = take idx lg" using l2(2) by simp
    finally show ?thesis .
  qed
  have b: "?r ! idx = lg2 ! idx"
  proof -
    have "?r ! idx = take (idx + 1) ?r ! idx" by simp
    also have "\<dots> = take (idx + 1) lg2 ! idx" by (simp only: ih(2))
    also have "\<dots> = lg2 ! idx" by simp
    finally show ?thesis .
  qed
  have c: "\<forall>k < length (e # es). le_Term (?r ! (idx + k)) = le_Term ((e # es) ! k)"
  proof (intro allI impI)
    fix k assume "k < length (e # es)"
    then show "le_Term (?r ! (idx + k)) = le_Term ((e # es) ! k)"
      using ih(3) b l2(3) by (cases k) auto
  qed
  from ih(1) a c show ?case unfolding step by simp
qed

lemma appendEntriesLoop_same:
  "idx + length es \<le> length lg \<Longrightarrow> idx + length es < 2 ^ 63 \<Longrightarrow>
   \<forall>k < length es. le_Term (lg ! (idx + k)) = le_Term (es ! k) \<Longrightarrow>
   appendEntriesLoop es lg idx = Inr (lg, idx + length es)"
proof (induction es arbitrary: idx)
  case Nil
  then show ?case by simp
next
  case (Cons e es)
  from Cons.prems(2) have s: "idx + 1 < 2 ^ 63" and r: "idx + 1 + length es < 2 ^ 63"
    by simp_all
  from Cons.prems(3) have "le_Term (lg ! idx) = le_Term e" by force
  moreover have "\<forall>k < length es. le_Term (lg ! (idx + 1 + k)) = le_Term (es ! k)"
    using Cons.prems(3) by force
  moreover have "idx + 1 + length es \<le> length lg" using Cons.prems(1) by simp
  ultimately show ?case using Cons.IH[of "idx + 1"] r
    unfolding appendEntriesLoop_step[OF s] by (simp add: Let_def)
qed

lemma appendEntriesLoop_no_conflict:
  "idx \<le> length lg \<Longrightarrow> idx + length es < 2 ^ 63 \<Longrightarrow> \<not> conflicts es lg idx \<Longrightarrow>
   length lg \<le> length (loopLog (appendEntriesLoop es lg idx))"
proof (induction es arbitrary: lg idx)
  case Nil
  then show ?case by simp
next
  case (Cons e es)
  from Cons.prems(2) have s: "idx + 1 < 2 ^ 63" and r: "idx + 1 + length es < 2 ^ 63"
    by simp_all
  define lg2 where "lg2 = (if length lg < idx + 1 then lg @ [e] else lg)"
  from Cons.prems have nc: "\<not> (idx < length lg \<and> le_Term (lg ! idx) \<noteq> le_Term e)"
    and rest: "\<not> conflicts es lg (idx + 1)" by auto
  have step: "appendEntriesLoop (e # es) lg idx = appendEntriesLoop es lg2 (idx + 1)"
    unfolding appendEntriesLoop_step[OF s] using nc by (auto simp: Let_def lg2_def)
  have "\<not> conflicts es lg2 (idx + 1)"
  proof (cases "length lg < idx + 1")
    case False
    then show ?thesis using rest by (simp add: lg2_def)
  next
    case True
    have "\<And>j. idx + 1 \<le> j \<Longrightarrow> \<not> conflicts es (lg @ [e]) j"
      using True by (induction es) auto
    then show ?thesis using True by (simp add: lg2_def)
  qed
  moreover have "idx + 1 \<le> length lg2" using Cons.prems(1) by (auto simp: lg2_def)
  ultimately have "length lg2 \<le> length (loopLog (appendEntriesLoop es lg2 (idx + 1)))"
    using r by (intro Cons.IH) simp_all
  moreover have "length lg \<le> length lg2" by (simp add: lg2_def)
  ultimately show ?case unfolding step by simp
qed

lemma appendEntriesLoop_at_end:
  "length lg + length es < 2 ^ 63 \<Longrightarrow>
   loopLog (appendEntriesLoop es lg (length lg)) = lg @ es"
proof (induction es arbitrary: lg)
  case Nil
  show ?case by simp
next
  case (Cons e es)
  from Cons.prems have s: "length lg + 1 < 2 ^ 63" by simp
  from Cons.IH[of "lg @ [e]"] Cons.prems show ?case
    unfolding appendEntriesLoop_step[OF s] by (simp add: Let_def)
qed

lemma appendEntriesLoop_conflict_length:
  "idx \<le> length lg \<Longrightarrow> idx + length es < 2 ^ 63 \<Longrightarrow> conflicts es lg idx \<Longrightarrow>
   length (loopLog (appendEntriesLoop es lg idx)) = idx + length es"
proof (induction es arbitrary: idx)
  case Nil
  then show ?case by simp
next
  case (Cons e es)
  from Cons.prems(2) have s: "idx + 1 < 2 ^ 63" and r: "idx + 1 + length es < 2 ^ 63"
    by simp_all
  show ?case
  proof (cases "idx < length lg \<and> le_Term (lg ! idx) \<noteq> le_Term e")
    case True
    then have "appendEntriesLoop (e # es) lg idx
        = appendEntriesLoop es (take idx lg @ [e]) (idx + 1)"
      unfolding appendEntriesLoop_step[OF s] by (simp add: Let_def)
    moreover have "length (take idx lg @ [e]) = idx + 1" using True by simp
    ultimately show ?thesis using appendEntriesLoop_at_end[of "take idx lg @ [e]" es] r
      by simp
  next
    case False
    with Cons.prems(3) have c: "conflicts es lg (idx + 1)" by simp
    have "\<And>j. length lg \<le> j \<Longrightarrow> \<not> conflicts es lg j" by (induction es) auto
    with c have lt: "idx + 1 \<le> length lg" by (meson not_less_eq_eq Suc_eq_plus1 nat_le_linear)
    with False have "appendEntriesLoop (e # es) lg idx = appendEntriesLoop es lg (idx + 1)"
      unfolding appendEntriesLoop_step[OF s] by (auto simp: Let_def)
    with Cons.IH[OF lt r c] show ?thesis by simp
  qed
qed

text \<open>
  On a log of fewer than \<open>2^63\<close> entries the loop panics as soon as \<open>newEntryIndex\<close>
  leaves the range below \<open>2^63\<close>: the conversion is not positive then, the comparison of
  condition 3 holds and the read is out of range.
\<close>

lemma appendEntriesLoop_weird_step:
  assumes "length lg < 2 ^ 63" "idx < 2 ^ 64" "\<not> idx + 1 < 2 ^ 63"
  shows "appendEntriesLoop (e # es) lg idx = Inl lg"
proof -
  have n: "inc64 idx = 0 \<or> (2 ^ 63 \<le> inc64 idx \<and> inc64 idx < 2 ^ 64)"
    using assms(2,3) by (auto simp: inc64_def)
  then have t: "toInt (inc64 idx) \<le> 0"
    using toInt_large[of "inc64 idx"] by (auto simp: toInt_def)
  from n have d: "\<not> dec64 (inc64 idx) < length lg"
    using assms(1) by (auto simp: dec64_def)
  from t have "int (length lg) \<ge> toInt (inc64 idx)" by simp
  with d show ?thesis by (simp add: Let_def)
qed

lemma appendEntriesLoop_canonical:
  "length lg < 2 ^ 63 \<Longrightarrow> idx < 2 ^ 64 \<Longrightarrow> appendEntriesLoop es lg idx = Inr r \<Longrightarrow>
   es = [] \<or> idx + length es < 2 ^ 63"
proof (induction es arbitrary: lg idx)
  case Nil
  show ?case by simp
next
  case (Cons e es)
  have s: "idx + 1 < 2 ^ 63"
  proof (rule ccontr)
    assume "\<not> idx + 1 < 2 ^ 63"
    from appendEntriesLoop_weird_step[OF Cons.prems(1,2) this] Cons.prems(3)
    show False by simp
  qed
  define lg2 where "lg2 = (let lg1 = (if length lg \<ge> idx + 1 \<and> le_Term (lg ! idx) \<noteq> le_Term e
                   then take idx lg else lg)
        in if length lg1 < idx + 1 then lg1 @ [e] else lg1)"
  have l: "length lg2 < 2 ^ 63" using Cons.prems(1) s by (auto simp: lg2_def Let_def)
  have i: "idx + 1 < 2 ^ 64" using s by simp
  from Cons.prems(3) have "appendEntriesLoop es lg2 (idx + 1) = Inr r"
    unfolding appendEntriesLoop_step[OF s] lg2_def .
  from Cons.IH[OF l i this] s show ?case by auto
qed


section \<open>The body of handleAppendEntries\<close>

lemma appendEntriesBody_passes:
  "passesConditions msg node \<Longrightarrow>
   appendEntriesBody msg node =
     (case appendEntriesLoop (ae_Entries msg) (log node) (ae_PrevLogIndex msg) of
        Inl lg \<Rightarrow> Inl (IndexOutOfRange (node\<lparr>leader := Some (ae_LeaderPID msg), log := lg\<rparr>))
      | Inr (lg, n) \<Rightarrow>
          Inr (True, node\<lparr>leader := Some (ae_LeaderPID msg), log := lg,
                          commitIndex := (if ae_LeaderCommit msg > commitIndex node
                                          then min (ae_LeaderCommit msg) n
                                          else commitIndex node),
                          electionTimer := Suc (electionTimer node)\<rparr>))"
proof -
  assume p: "passesConditions msg node"
  let ?n1 = "node\<lparr>leader := Some (ae_LeaderPID msg)\<rparr>"
  from p have t: "\<not> ae_Term msg < currentTerm node"
    and a: "\<not> (ae_PrevLogIndex msg > 0
               \<and> int (length (log ?n1)) < toInt (ae_PrevLogIndex msg))"
    and b: "\<not> (ae_PrevLogIndex msg > 0 \<and> length (log ?n1) > 0
               \<and> \<not> ae_PrevLogIndex msg - 1 < length (log ?n1))"
    and c: "\<not> (ae_PrevLogIndex msg > 0 \<and> length (log ?n1) > 0
               \<and> le_Term (log ?n1 ! (ae_PrevLogIndex msg - 1)) \<noteq> ae_PrevLogTerm msg)"
    by (auto simp: passesConditions_def)
  show ?thesis
    unfolding appendEntriesBody_def Let_def if_not_P[OF t] if_not_P[OF a] if_not_P[OF b]
      if_not_P[OF c]
    by (simp split: sum.splits prod.splits)
qed

lemma appendEntriesBody_fails:
  "\<not> passesConditions msg node \<Longrightarrow>
   (\<exists>s. appendEntriesBody msg node = Inl (IndexOutOfRange (node\<lparr>leader := s\<rparr>)))
   \<or> (\<exists>s. appendEntriesBody msg node = Inr (False, node\<lparr>leader := s\<rparr>))"
proof -
  assume np: "\<not> passesConditions msg node"
  have n: "node = node\<lparr>leader := leader node\<rparr>" by simp
  show ?thesis
  proof (cases "ae_Term msg < currentTerm node")
    case True
    then have "appendEntriesBody msg node = Inr (False, node\<lparr>leader := leader node\<rparr>)"
      by (simp add: appendEntriesBody_def)
    then show ?thesis by blast
  next
    case False
    with np have pos: "ae_PrevLogIndex msg > 0"
      and c: "int (length (log node)) < toInt (ae_PrevLogIndex msg)
        \<or> (length (log node) > 0 \<and> \<not> ae_PrevLogIndex msg - 1 < length (log node))
        \<or> (length (log node) > 0
            \<and> le_Term (log node ! (ae_PrevLogIndex msg - 1)) \<noteq> ae_PrevLogTerm msg)"
      by (auto simp: passesConditions_def)
    from c consider
        (a) "int (length (log node)) < toInt (ae_PrevLogIndex msg)"
      | (b) "\<not> int (length (log node)) < toInt (ae_PrevLogIndex msg)"
            "length (log node) > 0" "\<not> ae_PrevLogIndex msg - 1 < length (log node)"
      | (c) "\<not> int (length (log node)) < toInt (ae_PrevLogIndex msg)"
            "length (log node) > 0" "ae_PrevLogIndex msg - 1 < length (log node)"
            "le_Term (log node ! (ae_PrevLogIndex msg - 1)) \<noteq> ae_PrevLogTerm msg"
      by blast
    then show ?thesis
    proof cases
      case a
      with False pos have
        "appendEntriesBody msg node = Inr (False, node\<lparr>leader := Some (ae_LeaderPID msg)\<rparr>)"
        by (simp add: appendEntriesBody_def Let_def)
      then show ?thesis by blast
    next
      case b
      with False pos have
        "appendEntriesBody msg node
           = Inl (IndexOutOfRange (node\<lparr>leader := Some (ae_LeaderPID msg)\<rparr>))"
        by (simp add: appendEntriesBody_def Let_def)
      then show ?thesis by blast
    next
      case c
      with False pos have
        "appendEntriesBody msg node = Inr (False, node\<lparr>leader := Some (ae_LeaderPID msg)\<rparr>)"
        by (simp add: appendEntriesBody_def Let_def)
      then show ?thesis by blast
    qed
  qed
qed

lemma accepts_iff:
  "accepts msg node \<longleftrightarrow>
     passesConditions msg node
     \<and> \<not> isl (appendEntriesLoop (ae_Entries msg) (log node) (ae_PrevLogIndex msg))"
proof (cases "passesConditions msg node")
  case True
  then show ?thesis
    by (simp add: accepts_def appendEntriesBody_passes split: sum.splits prod.splits)
next
  case False
  from appendEntriesBody_fails[OF this] False show ?thesis by (auto simp: accepts_def)
qed

lemma accepts_loop:
  assumes "accepts msg node"
  shows "\<exists>n. appendEntriesLoop (ae_Entries msg) (log node) (ae_PrevLogIndex msg)
              = Inr (log (bodyNode (appendEntriesBody msg node)), n)
            \<and> commitIndex (bodyNode (appendEntriesBody msg node))
                = (if ae_LeaderCommit msg > commitIndex node
                   then min (ae_LeaderCommit msg) n else commitIndex node)"
proof -
  from assms have p: "passesConditions msg node"
    and l: "\<not> isl (appendEntriesLoop (ae_Entries msg) (log node) (ae_PrevLogIndex msg))"
    by (simp_all add: accepts_iff)
  from l obtain lg n where
    "appendEntriesLoop (ae_Entries msg) (log node) (ae_PrevLogIndex msg) = Inr (lg, n)"
    by (cases "appendEntriesLoop (ae_Entries msg) (log node) (ae_PrevLogIndex msg)") auto
  then show ?thesis by (simp add: appendEntriesBody_passes[OF p])
qed

lemma accepts_prev:
  assumes "accepts msg node"
  shows "ae_Term msg \<ge> currentTerm node
     \<and> (ae_PrevLogIndex msg = 0
        \<or> (\<not> int (length (log node)) < toInt (ae_PrevLogIndex msg)
            \<and> (log node = []
                \<or> (ae_PrevLogIndex msg - 1 < length (log node)
                    \<and> le_Term (log node ! (ae_PrevLogIndex msg - 1)) = ae_PrevLogTerm msg))))"
  using assms by (simp add: accepts_iff passesConditions_def)

lemma not_accepts:
  assumes "\<not> accepts msg node"
  shows "commitIndex (bodyNode (appendEntriesBody msg node)) = commitIndex node
     \<and> electionTimer (bodyNode (appendEntriesBody msg node)) = electionTimer node"
proof (cases "passesConditions msg node")
  case True
  with assms have "isl (appendEntriesLoop (ae_Entries msg) (log node) (ae_PrevLogIndex msg))"
    by (simp add: accepts_iff)
  then show ?thesis
    by (cases "appendEntriesLoop (ae_Entries msg) (log node) (ae_PrevLogIndex msg)")
       (simp_all add: appendEntriesBody_passes[OF True])
next
  case False
  from appendEntriesBody_fails[OF this] show ?thesis by auto
qed

lemma accepts_electionTimer:
  "electionTimer (bodyNode (appendEntriesBody msg node)) =
     (if accepts msg node then Suc (electionTimer node) else electionTimer node)"
proof (cases "accepts msg node")
  case False
  with not_accepts show ?thesis by simp
next
  case True
  then have p: "passesConditions msg node"
    and l: "\<not> isl (appendEntriesLoop (ae_Entries msg) (log node) (ae_PrevLogIndex msg))"
    by (simp_all add: accepts_iff)
  from l True show ?thesis
    by (cases "appendEntriesLoop (ae_Entries msg) (log node) (ae_PrevLogIndex msg)")
       (auto simp: appendEntriesBody_passes[OF p])
qed

lemma bodyNode_log:
  "log (bodyNode (appendEntriesBody msg node)) = log node
   \<or> log (bodyNode (appendEntriesBody msg node))
       = loopLog (appendEntriesLoop (ae_Entries msg) (log node) (ae_PrevLogIndex msg))"
proof (cases "passesConditions msg node")
  case True
  show ?thesis
    by (cases "appendEntriesLoop (ae_Entries msg) (log node) (ae_PrevLogIndex msg)")
       (auto simp: appendEntriesBody_passes[OF True])
next
  case False
  from appendEntriesBody_fails[OF this] show ?thesis by auto
qed

text \<open>
  For a valid node and message: an accepted message has its \<open>PrevLogIndex\<close> within the
  log and all its entries at indices below \<open>2^63\<close>, or it has a \<open>PrevLogIndex\<close> from
  \<open>2^63\<close> on and no entry, and the log is empty.
\<close>

lemma accepts_valid:
  assumes acc: "accepts msg node" and len: "length (log node) < 2 ^ 63"
    and prev: "ae_PrevLogIndex msg < 2 ^ 64"
  shows "(ae_PrevLogIndex msg \<le> length (log node)
          \<and> (ae_Entries msg = [] \<or> ae_PrevLogIndex msg + length (ae_Entries msg) < 2 ^ 63))
       \<or> (2 ^ 63 \<le> ae_PrevLogIndex msg \<and> log node = [] \<and> ae_Entries msg = [])"
proof -
  from accepts_loop[OF acc] obtain n where
    lp: "appendEntriesLoop (ae_Entries msg) (log node) (ae_PrevLogIndex msg)
          = Inr (log (bodyNode (appendEntriesBody msg node)), n)" by blast
  from appendEntriesLoop_canonical[OF len prev lp]
  have can: "ae_Entries msg = [] \<or> ae_PrevLogIndex msg + length (ae_Entries msg) < 2 ^ 63" .
  show ?thesis
  proof (cases "ae_PrevLogIndex msg < 2 ^ 63")
    case True
    then have "toInt (ae_PrevLogIndex msg) = int (ae_PrevLogIndex msg)" by (rule toInt_small)
    with accepts_prev[OF acc] have "ae_PrevLogIndex msg \<le> length (log node)" by auto
    with can show ?thesis by simp
  next
    case False
    then have big: "2 ^ 63 \<le> ae_PrevLogIndex msg" by simp
    with len have "\<not> ae_PrevLogIndex msg - 1 < length (log node)" by simp
    with accepts_prev[OF acc] big have e: "log node = []" by auto
    from can big have "ae_Entries msg = []" by auto
    with big e show ?thesis by simp
  qed
qed

lemma accepts_newEntryIndex:
  assumes acc: "accepts msg node" and len: "length (log node) < 2 ^ 63"
    and prev: "ae_PrevLogIndex msg < 2 ^ 64"
  shows "appendEntriesLoop (ae_Entries msg) (log node) (ae_PrevLogIndex msg)
           = Inr (log (bodyNode (appendEntriesBody msg node)),
                  ae_PrevLogIndex msg + length (ae_Entries msg))"
proof -
  from accepts_loop[OF acc] obtain n where
    lp: "appendEntriesLoop (ae_Entries msg) (log node) (ae_PrevLogIndex msg)
          = Inr (log (bodyNode (appendEntriesBody msg node)), n)" by blast
  from appendEntriesLoop_canonical[OF len prev lp]
  have "ae_Entries msg = [] \<or> ae_PrevLogIndex msg + length (ae_Entries msg) < 2 ^ 63" .
  then have "n = ae_PrevLogIndex msg + length (ae_Entries msg)"
  proof
    assume "ae_Entries msg = []" with lp show ?thesis by simp
  next
    assume "ae_PrevLogIndex msg + length (ae_Entries msg) < 2 ^ 63"
    from appendEntriesLoop_snd[OF this lp] show ?thesis .
  qed
  with lp show ?thesis by simp
qed

lemma bodyNode_commitIndex:
  assumes len: "length (log node) < 2 ^ 63" and prev: "ae_PrevLogIndex msg < 2 ^ 64"
  shows "commitIndex (bodyNode (appendEntriesBody msg node)) =
     (if accepts msg node \<and> ae_LeaderCommit msg > commitIndex node
      then min (ae_LeaderCommit msg) (ae_PrevLogIndex msg + length (ae_Entries msg))
      else commitIndex node)"
proof (cases "accepts msg node")
  case False
  with not_accepts show ?thesis by simp
next
  case True
  from accepts_loop[OF True] accepts_newEntryIndex[OF True len prev] True
  show ?thesis by auto
qed

lemma handleAppendEntries_log [simp]:
  "log (nodeOf (handleAppendEntries act msg node)) = log (bodyNode (appendEntriesBody msg node))"
  by (simp add: handleAppendEntries_nodeOf)

lemma handleAppendEntries_commitIndex [simp]:
  "commitIndex (nodeOf (handleAppendEntries act msg node))
     = commitIndex (bodyNode (appendEntriesBody msg node))"
  by (simp add: handleAppendEntries_nodeOf)

lemma handleAppendEntries_electionTimer [simp]:
  "electionTimer (nodeOf (handleAppendEntries act msg node))
     = electionTimer (bodyNode (appendEntriesBody msg node))"
  by (simp add: handleAppendEntries_nodeOf)

lemma handleAppendEntries_accepts:
  "accepts msg node \<Longrightarrow> \<not> isl (handleAppendEntries act msg node)"
  by (cases msg node rule: appendEntriesBody_cases)
     (simp_all add: handleAppendEntries_def accepts_def)


section \<open>The examples, evaluated\<close>

lemma not_isl_Inr: "\<not> isl r \<Longrightarrow> r = Inr (nodeOf r)"
  by (cases r) simp_all

lemmas eval_defs = Receive_def handleExternalTerm_def updateStateMachine_def pidEquals_def
  applyLoop.simps applyEntry_def send_def Let_def lastLogIndexAndTerm_def matched_def
  NewNode_def exampleConfig_def peer_def ctx_def inc64_def dec64_def toInt_def
  handleAppendEntries_def appendEntriesBody_def appendEntriesResult_def accepts_def

lemma followerB3_eval:
  "\<not> isl (Receive (ctx ''B'' ''A'') (MsgAppendEntries appendThird) followerB)
   \<and> log followerB3 = log followerB @ [\<lparr>le_Command = ''z=3'', le_Term = 1\<rparr>]
   \<and> commitIndex followerB3 = 3 \<and> lastApplied followerB3 = 3"
  unfolding followerB3_def
  by (simp add: eval_defs followerB_def appendThird_def)

lemma followerB3_Inr:
  "Receive (ctx ''B'' ''A'') (MsgAppendEntries appendThird) followerB = Inr followerB3"
  unfolding followerB3_def using followerB3_eval by (intro not_isl_Inr) simp

lemma followerB3_eq:
  "followerB3 = followerB
      \<lparr>log := log followerB @ [\<lparr>le_Command = ''z=3'', le_Term = 1\<rparr>],
       commitIndex := 3, lastApplied := 3, electionTimer := 1,
       sent := [(Some ''A'', MsgAppendEntriesResult
                   \<lparr>aer_PID = ''B'', aer_Term = 1, aer_Success = True\<rparr>)],
       handled := [''z=3'']\<rparr>"
  unfolding followerB3_def
  by (simp add: eval_defs followerB_def appendThird_def)

lemma replayRun_eval:
  "safeRun replayRun followerB \<and> \<not> isl (ReceiveAll replayRun followerB)"
proof -
  have h1: "validNode followerB \<and> validNode followerB3
      \<and> validMessage (MsgAppendEntries appendThird)"
    by (simp add: validNode_def followerB3_eq followerB_def appendThird_def NewNode_def)
  have h2: "\<not> unsafeAppendEntries (MsgAppendEntries appendThird) followerB"
    by (simp add: followerB_def appendThird_def NewNode_def)
  have h3: "\<not> unsafeAppendEntries (MsgAppendEntries appendThird) followerB3"
    by (simp add: followerB3_eq followerB_def appendThird_def NewNode_def)
  have h4: "\<not> isl (Receive (ctx ''B'' ''A'') (MsgAppendEntries appendThird) followerB3)"
    unfolding followerB3_eq
    by (simp add: eval_defs followerB_def appendThird_def)
  from h4 obtain n4 where
    n4: "Receive (ctx ''B'' ''A'') (MsgAppendEntries appendThird) followerB3 = Inr n4"
    by (cases "Receive (ctx ''B'' ''A'') (MsgAppendEntries appendThird) followerB3") simp_all
  from h1 h2 h3 show ?thesis
    by (simp add: replayRun_def followerB3_Inr n4 del: unsafeAppendEntries.simps)
qed

section \<open>The peer table on a membership update\<close>

lemma activeNodesLoop_map_of:
  "map_of (activeNodesLoop act lli ps table) p =
     (case map_of table p of
        Some m \<Rightarrow> Some m
      | None \<Rightarrow> if p \<in> set ps \<and> p \<noteq> act_PID act
                then Some \<lparr>pid = p, nextIndex = lli + 1, matchIndex = 0\<rparr> else None)"
proof (induction ps arbitrary: table)
  case Nil
  show ?case by (simp split: option.splits)
next
  case (Cons q ps)
  show ?case
    by (auto simp: Cons.IH pidEquals_def split: option.splits)
qed

lemma activeNodesLoop_distinct:
  "distinct (map fst table) \<Longrightarrow> distinct (map fst (activeNodesLoop act lli ps table))"
proof (induction ps arbitrary: table)
  case Nil
  then show ?case by simp
next
  case (Cons q ps)
  show ?case
  proof (cases "\<not> pidEquals (Some q) (Some (act_PID act)) \<and> map_of table q = None")
    case True
    then have "q \<notin> fst ` set table" by (simp add: map_of_eq_None_iff)
    with Cons.prems
    have "distinct (map fst (table @ [(q, \<lparr>pid = q, nextIndex = lli + 1, matchIndex = 0\<rparr>)]))"
      by simp
    from Cons.IH[OF this] True show ?thesis by simp
  next
    case False
    with Cons.IH[OF Cons.prems] show ?thesis by (auto split: option.splits)
  qed
qed

text \<open>
  C3, as the code has it: \<open>handleActiveNodes\<close> starts from an empty table, so handling
  an ActiveNodes update gives every listed peer other than the node itself the cursors
  \<open>nextIndex = lastLogIndex + 1\<close> and \<open>matchIndex = 0\<close>, whether or not the peer was in
  the table before; a peer that is not listed, and the node itself, have no entry, and
  no peer has two. The cursors of a peer that was present are not preserved.
\<close>

theorem handleActiveNodes_rebuilds_table:
  "map_of (nodes (nodeOf (Receive act (MsgActiveNodes msgNodes) node))) p =
     (if p \<in> set msgNodes \<and> p \<noteq> act_PID act
      then Some \<lparr>pid = p, nextIndex = length (log node) + 1, matchIndex = 0\<rparr>
      else None)
   \<and> distinct (map fst (nodes (nodeOf (Receive act (MsgActiveNodes msgNodes) node))))"
  by (simp add: Receive_nodeOf updateStateMachine_fields handleActiveNodes_def
        lastLogIndexAndTerm_def Let_def activeNodesLoop_map_of activeNodesLoop_distinct)

text \<open>
  C3 as stated fails: B is in the table with \<open>nextIndex = 2\<close> and \<open>matchIndex = 1\<close> and
  is listed in the update; afterwards its cursors are 3 and 0.
\<close>

theorem handleActiveNodes_resets_present_peer:
  "map_of (nodes tableNode) ''B'' = Some \<lparr>pid = ''B'', nextIndex = 2, matchIndex = 1\<rparr>
   \<and> map_of (nodes (nodeOf (Receive (ctx ''A'' ''discovery'') (MsgActiveNodes [''B'', ''C''])
                              tableNode))) ''B''
       = Some \<lparr>pid = ''B'', nextIndex = 3, matchIndex = 0\<rparr>"
  by (simp add: Receive_nodeOf updateStateMachine_fields handleActiveNodes_def
        lastLogIndexAndTerm_def Let_def pidEquals_def tableNode_def NewNode_def peer_def ctx_def)

section \<open>The election timer\<close>

lemma Receive_electionTimer:
  "electionTimer (nodeOf (Receive act m node)) = electionTimer (nodeOf (dispatch act m node))"
  by (cases "dispatch act m node") (simp_all add: Receive_def updateStateMachine_fields)

text \<open>
  C7, as the code has it: handling a RequestVote message leaves the election timer as
  it is, whether the vote is granted or not. The timer is re-armed when an
  AppendEntries message is accepted (the handler returns with \<open>result.Success\<close>), and
  when \<open>checkTimers\<close> reads its channel.
\<close>

theorem requestVote_leaves_electionTimer:
  "electionTimer (nodeOf (Receive act (MsgRequestVote rv) node)) = electionTimer node
   \<and> electionTimer (nodeOf (Receive act (MsgAppendEntries ae) node)) =
       (if accepts ae (handleExternalTerm (ae_Term ae) node)
        then Suc (electionTimer node) else electionTimer node)
   \<and> electionTimer (nodeOf (Receive act MsgCheckTimers node)) =
       (if act_Fired act = ElectionFired then Suc (electionTimer node) else electionTimer node)"
proof -
  have a: "electionTimer (nodeOf (Receive act (MsgRequestVote rv) node)) = electionTimer node"
    by (simp add: Receive_electionTimer)
  have b: "electionTimer (nodeOf (Receive act (MsgAppendEntries ae) node)) =
       (if accepts ae (handleExternalTerm (ae_Term ae) node)
        then Suc (electionTimer node) else electionTimer node)"
    by (simp add: Receive_electionTimer accepts_electionTimer)
  have c: "electionTimer (nodeOf (Receive act MsgCheckTimers node)) =
       (if act_Fired act = ElectionFired then Suc (electionTimer node) else electionTimer node)"
    by (simp add: Receive_electionTimer checkTimers_def nodeOf_bind Let_def
          split: timerChannel.splits)
  from a b c show ?thesis by blast
qed

text \<open>
  C7 as stated fails: a new node B handles A's RequestVote of term 1, grants the vote
  (\<open>votedFor\<close> is A, the one message sent is the result with \<open>VoteGranted\<close>), and its
  election timer has not been armed again.
\<close>

theorem requestVote_granted_timer_not_rearmed:
  "\<not> isl (Receive (ctx ''B'' ''A'') (MsgRequestVote voteForA) (NewNode exampleConfig))
   \<and> votedFor (nodeOf (Receive (ctx ''B'' ''A'') (MsgRequestVote voteForA)
                         (NewNode exampleConfig))) = Some ''A''
   \<and> sent (nodeOf (Receive (ctx ''B'' ''A'') (MsgRequestVote voteForA)
                     (NewNode exampleConfig)))
       = [(Some ''A'', MsgRequestVoteResult \<lparr>rvr_Term = 1, rvr_VoteGranted = True\<rparr>)]
   \<and> electionTimer (nodeOf (Receive (ctx ''B'' ''A'') (MsgRequestVote voteForA)
                              (NewNode exampleConfig)))
       = electionTimer (NewNode exampleConfig)"
  by (simp add: Receive_def handleExternalTerm_def handleRequestVote_def requestVoteResult_def
        send_def updateStateMachine_def pidEquals_def applyLoop.simps NewNode_def ctx_def
        voteForA_def Let_def)

section \<open>The term\<close>

lemma dispatch_advanced:
  assumes "peerTerm m = Some T" and "T > currentTerm node"
  shows "dispatch act m node
           = dispatch act m (node\<lparr>currentTerm := T, leader := None, votedFor := None\<rparr>)"
proof -
  have "handleExternalTerm T node = node\<lparr>currentTerm := T, leader := None, votedFor := None\<rparr>"
    "handleExternalTerm T (node\<lparr>currentTerm := T, leader := None, votedFor := None\<rparr>)
       = node\<lparr>currentTerm := T, leader := None, votedFor := None\<rparr>"
    using assms(2) by (simp_all add: handleExternalTerm_def)
  with assms(1) show ?thesis by (cases m) simp_all
qed

lemma Receive_currentTerm_le:
  "\<not> electionWrapsTerm act m node \<Longrightarrow>
   currentTerm node \<le> currentTerm (nodeOf (Receive act m node))"
  by (auto simp: Receive_currentTerm dispatch_currentTerm electionWrapsTerm_def inc64_def
        split: option.splits)

lemma Receive_currentTerm_wraps:
  "electionWrapsTerm act m node \<Longrightarrow> currentTerm (nodeOf (Receive act m node)) = 0"
  unfolding Receive_currentTerm dispatch_currentTerm
  by (simp add: electionWrapsTerm_def inc64_def)

text \<open>
  C8, as the code has it: \<open>Receive\<close> gives each of the four peer messages to its handler
  after \<open>handleExternalTerm\<close> on the term \<open>T\<close> the message carries; when
  \<open>T > currentTerm\<close> that sets \<open>currentTerm = T\<close> and clears \<open>leader\<close> and \<open>votedFor\<close>,
  so the node is no leader and the handler runs on the node so advanced. After a peer
  message the term is the greater of \<open>T\<close> and the old term. Handling a message does not
  make \<open>currentTerm\<close> smaller, but for one case: when the election timer has fired at a
  node that is no leader and whose term is \<open>2^64 - 1\<close>, the increment of
  \<open>startElection\<close> wraps and the term is 0.
\<close>

theorem currentTerm_advance:
  "(T > currentTerm node \<longrightarrow>
      handleExternalTerm T node = node\<lparr>currentTerm := T, leader := None, votedFor := None\<rparr>)
   \<and> dispatch act (MsgAppendEntries ae) node =
        handleAppendEntries act ae (handleExternalTerm (ae_Term ae) node)
   \<and> dispatch act (MsgAppendEntriesResult aer) node =
        handleAppendEntriesResult act aer (handleExternalTerm (aer_Term aer) node)
   \<and> dispatch act (MsgRequestVote rv) node =
        handleRequestVote act rv (handleExternalTerm (rv_Term rv) node)
   \<and> dispatch act (MsgRequestVoteResult rvr) node =
        handleRequestVoteResult act rvr (handleExternalTerm (rvr_Term rvr) node)
   \<and> (peerTerm m = Some T \<and> T > currentTerm node \<longrightarrow>
        dispatch act m node
          = dispatch act m (node\<lparr>currentTerm := T, leader := None, votedFor := None\<rparr>))
   \<and> (peerTerm m = Some T \<longrightarrow>
        currentTerm (nodeOf (Receive act m node)) = max T (currentTerm node))
   \<and> (\<not> electionWrapsTerm act m node \<longrightarrow>
        currentTerm node \<le> currentTerm (nodeOf (Receive act m node)))
   \<and> (electionWrapsTerm act m node \<longrightarrow> currentTerm (nodeOf (Receive act m node)) = 0)"
proof -
  have a: "T > currentTerm node \<longrightarrow>
      handleExternalTerm T node = node\<lparr>currentTerm := T, leader := None, votedFor := None\<rparr>"
    by (simp add: handleExternalTerm_def)
  have b: "peerTerm m = Some T \<longrightarrow>
        currentTerm (nodeOf (Receive act m node)) = max T (currentTerm node)"
    by (simp add: Receive_currentTerm dispatch_currentTerm)
  from a b dispatch_advanced[of m T node act] Receive_currentTerm_le[of act m node]
    Receive_currentTerm_wraps[of act m node]
  show ?thesis by simp
qed

lemma lastTermNode_eval:
  "ReceiveAll [(ctx ''A'' ''A'', MsgInitialized), (ctx ''A'' ''B'', lastTermResult)]
     (NewNode exampleConfig)
   = Inr ((NewNode exampleConfig)
            \<lparr>currentTerm := 18446744073709551615, electionTimer := 1, heartbeatTimer := 1\<rparr>)"
  by (simp add: eval_defs lastTermResult_def handleRequestVoteResult_def)

lemma lastTermNode_eq:
  "lastTermNode = (NewNode exampleConfig)
            \<lparr>currentTerm := 18446744073709551615, electionTimer := 1, heartbeatTimer := 1\<rparr>"
  unfolding lastTermNode_def lastTermNode_eval by simp

text \<open>
  The leader A of term 1 handles B's RequestVote of term 2: it is in term 2 with no
  leader and no vote when \<open>handleRequestVote\<close> runs, and in term 2 afterwards. And the
  node in the last term of the range is in term 0 after the tick that starts its
  election.
\<close>

theorem currentTerm_advance_witness:
  "currentTerm leaderA < 2
   \<and> peerTerm (MsgRequestVote voteForB2) = Some 2
   \<and> \<not> electionWrapsTerm (ctx ''A'' ''B'') (MsgRequestVote voteForB2) leaderA
   \<and> handleExternalTerm 2 leaderA
       = leaderA\<lparr>currentTerm := 2, leader := None, votedFor := None\<rparr>
   \<and> currentTerm (nodeOf (Receive (ctx ''A'' ''B'') (MsgRequestVote voteForB2) leaderA)) = 2
   \<and> electionWrapsTerm (electionTick ''A'') MsgCheckTimers lastTermNode
   \<and> currentTerm (nodeOf (Receive (electionTick ''A'') MsgCheckTimers lastTermNode)) = 0"
proof -
  have h1: "2 > currentTerm leaderA" by (simp add: leaderA_def NewNode_def)
  have h2: "peerTerm (MsgRequestVote voteForB2) = Some 2" by (simp add: voteForB2_def)
  have h3: "\<not> electionWrapsTerm (ctx ''A'' ''B'') (MsgRequestVote voteForB2) leaderA"
    by (simp add: electionWrapsTerm_def)
  have h4: "electionWrapsTerm (electionTick ''A'') MsgCheckTimers lastTermNode"
    by (simp add: electionWrapsTerm_def electionTick_def lastTermNode_eq NewNode_def
          pidEquals_def)
  have "max 2 (currentTerm leaderA) = 2" by (simp add: leaderA_def NewNode_def)
  with h1 h2 h3
    currentTerm_advance[where T = 2 and node = leaderA and m = "MsgRequestVote voteForB2"
      and act = "ctx ''A'' ''B''"]
  have p1: "handleExternalTerm 2 leaderA
       = leaderA\<lparr>currentTerm := 2, leader := None, votedFor := None\<rparr>
     \<and> currentTerm (nodeOf (Receive (ctx ''A'' ''B'') (MsgRequestVote voteForB2) leaderA)) = 2"
    by simp
  from h4 currentTerm_advance[where node = lastTermNode and m = MsgCheckTimers
      and act = "electionTick ''A''"]
  have p2: "currentTerm (nodeOf (Receive (electionTick ''A'') MsgCheckTimers lastTermNode)) = 0"
    by blast
  from h1 h2 h3 h4 p1 p2 show ?thesis by blast
qed

text \<open>
  C8 as stated fails: a new node A is initialized and handles a RequestVoteResult of
  term \<open>2^64 - 1\<close>, which it takes as its term; when its election timer has fired, the
  tick starts an election and the term after it is 0.
\<close>

theorem startElection_wraps_currentTerm:
  "ReceiveAll [(ctx ''A'' ''A'', MsgInitialized), (ctx ''A'' ''B'', lastTermResult)]
     (NewNode exampleConfig) = Inr lastTermNode
   \<and> currentTerm lastTermNode = 18446744073709551615
   \<and> \<not> isl (Receive (electionTick ''A'') MsgCheckTimers lastTermNode)
   \<and> currentTerm (nodeOf (Receive (electionTick ''A'') MsgCheckTimers lastTermNode)) = 0
   \<and> \<not> currentTerm lastTermNode
         \<le> currentTerm (nodeOf (Receive (electionTick ''A'') MsgCheckTimers lastTermNode))"
proof -
  have a: "ReceiveAll [(ctx ''A'' ''A'', MsgInitialized), (ctx ''A'' ''B'', lastTermResult)]
     (NewNode exampleConfig) = Inr lastTermNode"
    unfolding lastTermNode_eval lastTermNode_eq by simp
  have b: "\<not> isl (Receive (electionTick ''A'') MsgCheckTimers lastTermNode)
     \<and> currentTerm (nodeOf (Receive (electionTick ''A'') MsgCheckTimers lastTermNode)) = 0"
    unfolding lastTermNode_eq
    by (simp add: eval_defs electionTick_def checkTimers_def startElection_def)
  from a b show ?thesis by (simp add: lastTermNode_eq)
qed

section \<open>Votes\<close>

lemma handleRequestVote_nodeOf:
  "nodeOf (handleRequestVote act msg node) =
     send (act_Sender act)
       (MsgRequestVoteResult
          \<lparr>rvr_Term = currentTerm node, rvr_VoteGranted = voteGrantedSpec msg node\<rparr>)
       (if voteGrantedSpec msg node then node\<lparr>votedFor := Some (rv_CandidatePID msg)\<rparr>
        else node)"
proof (cases "lastApplied node = 0 \<or> lastApplied node \<le> length (log node)")
  case True
  then have "lastApplied node = 0 \<or> lastApplied node - 1 < length (log node)" by arith
  with True show ?thesis
    unfolding handleRequestVote_def voteGrantedSpec_def requestVoteResult_def Let_def
    by (auto simp: send_def)
next
  case False
  then have "\<not> lastApplied node - 1 < length (log node)" by arith
  with False show ?thesis
    unfolding handleRequestVote_def voteGrantedSpec_def requestVoteResult_def Let_def
    by (simp add: send_def)
qed

lemma handleRequestVote_isl:
  "isl (handleRequestVote act msg node) \<longleftrightarrow>
     (rv_Term msg \<ge> currentTerm node
      \<and> (votedFor node = None \<or> votedFor node = Some (rv_CandidatePID msg))
      \<and> rv_LastLogIndex msg \<ge> lastApplied node
      \<and> lastApplied node > length (log node))"
proof (cases "lastApplied node = 0 \<or> lastApplied node \<le> length (log node)")
  case True
  then have "lastApplied node = 0 \<or> lastApplied node - 1 < length (log node)" by arith
  with True show ?thesis
    unfolding handleRequestVote_def Let_def by auto
next
  case False
  then have "\<not> lastApplied node - 1 < length (log node)" by arith
  with False show ?thesis
    unfolding handleRequestVote_def Let_def by simp
qed

text \<open>
  C9: with \<open>node\<close> the node after the term advance, handling a RequestVote sends exactly
  one message, to the sender: the RequestVoteResult with \<open>currentTerm\<close> of \<open>node\<close> and
  \<open>VoteGranted\<close> equal to the condition of the specification; \<open>votedFor\<close> becomes the
  candidate when the vote is granted, and nothing else changes. The handler panics, after
  sending a result that does not grant, exactly when the other conditions hold and
  \<open>lastApplied\<close> is beyond the end of the log.
\<close>

theorem handleRequestVote_grants_iff:
  "nodeOf (dispatch act (MsgRequestVote msg) node0) =
     (let node = handleExternalTerm (rv_Term msg) node0;
          granted = voteGrantedSpec msg node
      in send (act_Sender act)
           (MsgRequestVoteResult \<lparr>rvr_Term = currentTerm node, rvr_VoteGranted = granted\<rparr>)
           (if granted then node\<lparr>votedFor := Some (rv_CandidatePID msg)\<rparr> else node))
   \<and> (isl (dispatch act (MsgRequestVote msg) node0) \<longleftrightarrow>
        (let node = handleExternalTerm (rv_Term msg) node0
         in rv_Term msg \<ge> currentTerm node
            \<and> (votedFor node = None \<or> votedFor node = Some (rv_CandidatePID msg))
            \<and> rv_LastLogIndex msg \<ge> lastApplied node
            \<and> lastApplied node > length (log node)))"
  unfolding Let_def dispatch.simps handleRequestVote_nodeOf handleRequestVote_isl
  by simp

section \<open>Tallying votes\<close>

lemma sendAppendEntries_sender [simp]:
  "sendAppendEntries (act\<lparr>act_Sender := s\<rparr>) p node = sendAppendEntries act p node"
  by (simp add: sendAppendEntries_def Let_def split: option.splits)

lemma sendAppendEntriesLoop_sender [simp]:
  "sendAppendEntriesLoop (act\<lparr>act_Sender := s\<rparr>) l node = sendAppendEntriesLoop act l node"
  by (induction l arbitrary: node) (simp_all split: sum.splits)

lemma updateStateMachine_sender [simp]:
  "updateStateMachine (act\<lparr>act_Sender := s\<rparr>) = updateStateMachine act"
  by (rule ext) (simp add: updateStateMachine_def)

lemma handleRequestVoteResult_sender [simp]:
  "handleRequestVoteResult (act\<lparr>act_Sender := s\<rparr>) msg node
     = handleRequestVoteResult act msg node"
  by (simp add: handleRequestVoteResult_def sendAppendEntriesAll_def Let_def)

lemma Receive_requestVoteResult_sender:
  "Receive (act\<lparr>act_Sender := s\<rparr>) (MsgRequestVoteResult msg) node
     = Receive act (MsgRequestVoteResult msg) node"
  by (simp add: Receive_def split: sum.splits)

lemma Receive_votes:
  "votes (nodeOf (Receive act m node)) = votes (nodeOf (dispatch act m node))"
  by (cases "dispatch act m node") (simp_all add: Receive_def updateStateMachine_fields)

lemma handleRequestVoteResult_votes:
  "votes (nodeOf (handleRequestVoteResult act msg node)) =
     (if rvr_VoteGranted msg \<and> rvr_Term msg = currentTerm node
         \<and> \<not> pidEquals (leader node) (Some (act_PID act))
      then votes node + 1 else votes node)"
  by (simp add: handleRequestVoteResult_def Let_def)

lemma candidateA1_eval:
  "Receive (ctx ''A'' ''B'') grantTerm1 candidateA = Inr (candidateA\<lparr>votes := 2\<rparr>)"
  by (simp add: Receive_def handleExternalTerm_def handleRequestVoteResult_def candidateA_def
        NewNode_def ctx_def grantTerm1_def pidEquals_def votesOverHalf_def
        updateStateMachine_def applyLoop.simps)

lemma candidateA2_eval:
  "leader candidateA2 = Some ''A'' \<and> votes candidateA2 = 3
   \<and> \<not> isl (Receive (ctx ''A'' ''B'') grantTerm1 candidateA1)"
  unfolding candidateA2_def candidateA1_def candidateA1_eval
  by (simp add: Receive_def handleExternalTerm_def handleRequestVoteResult_def candidateA_def
        NewNode_def ctx_def grantTerm1_def pidEquals_def votesOverHalf_def
        updateStateMachine_def applyLoop.simps sendAppendEntriesAll_def sendAppendEntries_def
        peer_def Let_def lastLogIndexAndTerm_def send_def inc64_def)

text \<open>
  C10: a node that is not the leader and handles a granting RequestVoteResult of its
  current term counts one more vote, and the result of handling the message is the same
  whoever sent it. So the same voter counts twice: the candidate A of a cluster of five,
  holding its own vote, handles two grants sent by B; after the first it has 2 votes and
  is no leader, after the second it has 3 votes for 4 peers and is the leader, with
  grants from one peer.
\<close>

theorem requestVoteResult_counts_every_grant:
  "(rvr_VoteGranted msg \<and> rvr_Term msg = currentTerm node
      \<and> \<not> pidEquals (leader node) (Some (act_PID act)) \<longrightarrow>
      votes (nodeOf (Receive act (MsgRequestVoteResult msg) node)) = votes node + 1)
   \<and> Receive (act\<lparr>act_Sender := voter\<rparr>) (MsgRequestVoteResult msg) node
       = Receive act (MsgRequestVoteResult msg) node
   \<and> length (nodes candidateA) = 4 \<and> votes candidateA = 1
   \<and> Receive (ctx ''A'' ''B'') grantTerm1 candidateA = Inr candidateA1
   \<and> votes candidateA1 = 2 \<and> leader candidateA1 = None
   \<and> Receive (ctx ''A'' ''B'') grantTerm1 candidateA1 = Inr candidateA2
   \<and> votes candidateA2 = 3 \<and> leader candidateA2 = Some ''A''"
proof -
  have a: "rvr_VoteGranted msg \<and> rvr_Term msg = currentTerm node
      \<and> \<not> pidEquals (leader node) (Some (act_PID act)) \<longrightarrow>
      votes (nodeOf (Receive act (MsgRequestVoteResult msg) node)) = votes node + 1"
    by (simp add: Receive_votes handleRequestVoteResult_votes handleExternalTerm_def)
  have b: "length (nodes candidateA) = 4 \<and> votes candidateA = 1"
    by (simp add: candidateA_def NewNode_def)
  have c: "Receive (ctx ''A'' ''B'') grantTerm1 candidateA = Inr candidateA1
     \<and> votes candidateA1 = 2 \<and> leader candidateA1 = None"
    by (simp add: candidateA1_def candidateA1_eval) (simp add: candidateA_def NewNode_def)
  have d: "Receive (ctx ''A'' ''B'') grantTerm1 candidateA1 = Inr candidateA2"
    using candidateA2_eval by (cases "Receive (ctx ''A'' ''B'') grantTerm1 candidateA1")
      (simp_all add: candidateA2_def)
  from a b c d candidateA2_eval Receive_requestVoteResult_sender show ?thesis by simp
qed

text \<open>The general part at the example: the second grant of B is counted as the first was.\<close>

theorem requestVoteResult_counts_every_grant_witness:
  "rvr_VoteGranted \<lparr>rvr_Term = 1, rvr_VoteGranted = True\<rparr>
   \<and> rvr_Term \<lparr>rvr_Term = 1, rvr_VoteGranted = True\<rparr> = currentTerm candidateA1
   \<and> \<not> pidEquals (leader candidateA1) (Some (act_PID (ctx ''A'' ''B'')))
   \<and> votes (nodeOf (Receive (ctx ''A'' ''B'')
               (MsgRequestVoteResult \<lparr>rvr_Term = 1, rvr_VoteGranted = True\<rparr>) candidateA1))
       = votes candidateA1 + 1"
proof -
  have n1: "candidateA1 = candidateA\<lparr>votes := 2\<rparr>"
    by (simp add: candidateA1_def candidateA1_eval)
  have h: "rvr_VoteGranted \<lparr>rvr_Term = 1, rvr_VoteGranted = True\<rparr>
     \<and> rvr_Term \<lparr>rvr_Term = 1, rvr_VoteGranted = True\<rparr> = currentTerm candidateA1
     \<and> \<not> pidEquals (leader candidateA1) (Some (act_PID (ctx ''A'' ''B'')))"
    by (simp add: n1 candidateA_def NewNode_def pidEquals_def ctx_def)
  with requestVoteResult_counts_every_grant[where msg = "\<lparr>rvr_Term = 1, rvr_VoteGranted = True\<rparr>"
      and node = candidateA1 and act = "ctx ''A'' ''B''"]
  show ?thesis by simp
qed

section \<open>Replaying an AppendEntries message\<close>

lemma appendEntriesBody_replay:
  assumes ok: "accepts msg1 node"
    and len: "length (log node) < 2 ^ 63" and prev: "ae_PrevLogIndex msg1 < 2 ^ 64"
    and same: "ae_PrevLogIndex msg2 = ae_PrevLogIndex msg1"
      "ae_PrevLogTerm msg2 = ae_PrevLogTerm msg1" "ae_Entries msg2 = ae_Entries msg1"
    and l1: "log node1 = log (bodyNode (appendEntriesBody msg1 node))"
  shows "log (bodyNode (appendEntriesBody msg2 node1)) = log node1"
proof -
  let ?idx = "ae_PrevLogIndex msg1" and ?es = "ae_Entries msg1"
  from accepts_newEntryIndex[OF ok len prev] l1
  have lp: "appendEntriesLoop ?es (log node) ?idx = Inr (log node1, ?idx + length ?es)"
    by simp
  have "loopLog (appendEntriesLoop ?es (log node1) ?idx) = log node1"
  proof (cases "?es = []")
    case True
    then show ?thesis by simp
  next
    case False
    with accepts_valid[OF ok len prev]
    have le: "?idx \<le> length (log node)" and can: "?idx + length ?es < 2 ^ 63" by auto
    from appendEntriesLoop_terms[OF le can] lp
    have "?idx + length ?es \<le> length (log node1)"
      "\<forall>k < length ?es. le_Term (log node1 ! (?idx + k)) = le_Term (?es ! k)"
      by auto
    from appendEntriesLoop_same[OF this(1) can this(2)] show ?thesis by simp
  qed
  with bodyNode_log[of msg2 node1] same show ?thesis by auto
qed

lemma Receive_log_appendEntries:
  "log (nodeOf (Receive act (MsgAppendEntries msg) node))
     = log (bodyNode (appendEntriesBody msg (handleExternalTerm (ae_Term msg) node)))"
proof (cases "dispatch act (MsgAppendEntries msg) node")
  case (Inl p)
  then have "nodeOf (Receive act (MsgAppendEntries msg) node)
      = nodeOf (dispatch act (MsgAppendEntries msg) node)"
    by (simp add: Receive_def)
  then show ?thesis by simp
next
  case (Inr n1)
  then have "nodeOf (Receive act (MsgAppendEntries msg) node)
      = nodeOf (updateStateMachine act (nodeOf (dispatch act (MsgAppendEntries msg) node)))"
    by (simp add: Receive_def)
  then show ?thesis by (simp add: updateStateMachine_fields)
qed

text \<open>
  C6: if a node handles an AppendEntries message and accepts it (the handler returns
  with \<open>result.Success\<close>), and then handles a message with the same \<open>PrevLogIndex\<close>,
  \<open>PrevLogTerm\<close> and \<open>Entries\<close>, the second message leaves the log as the first left it.
  The node and the message are what Go can hold: the log has fewer than \<open>2^63\<close> entries
  and \<open>PrevLogIndex\<close> is a \<open>uint64\<close>.
\<close>

theorem appendEntries_idempotent:
  assumes "accepts msg1 (handleExternalTerm (ae_Term msg1) node)"
    and "length (log node) < 2 ^ 63" and "ae_PrevLogIndex msg1 < 2 ^ 64"
    and "ae_PrevLogIndex msg2 = ae_PrevLogIndex msg1"
    and "ae_PrevLogTerm msg2 = ae_PrevLogTerm msg1"
    and "ae_Entries msg2 = ae_Entries msg1"
  shows "log (nodeOf (Receive act2 (MsgAppendEntries msg2)
                        (nodeOf (Receive act1 (MsgAppendEntries msg1) node))))
         = log (nodeOf (Receive act1 (MsgAppendEntries msg1) node))"
proof -
  define node0 where "node0 = handleExternalTerm (ae_Term msg1) node"
  define node1 where "node1 = nodeOf (Receive act1 (MsgAppendEntries msg1) node)"
  have len: "length (log node0) < 2 ^ 63" using assms(2) by (simp add: node0_def)
  have l1: "log node1 = log (bodyNode (appendEntriesBody msg1 node0))"
    using Receive_log_appendEntries[of act1 msg1 node] by (simp add: node1_def node0_def)
  then have "log (handleExternalTerm (ae_Term msg2) node1)
      = log (bodyNode (appendEntriesBody msg1 node0))"
    by simp
  from appendEntriesBody_replay[OF assms(1)[folded node0_def] len assms(3-6) this]
  show ?thesis
    by (simp add: Receive_log_appendEntries node1_def[symmetric])
qed

text \<open>
  B accepts A's message with a third entry; the same entries again, with another
  \<open>LeaderCommit\<close>, leave the three entries of the log as they are.
\<close>

theorem appendEntries_idempotent_witness:
  "accepts appendThird (handleExternalTerm (ae_Term appendThird) followerB)
   \<and> length (log followerB) < 2 ^ 63 \<and> ae_PrevLogIndex appendThird < 2 ^ 64
   \<and> Receive (ctx ''B'' ''A'') (MsgAppendEntries appendThird) followerB = Inr followerB3
   \<and> length (log followerB) = 2 \<and> length (log followerB3) = 3
   \<and> log (nodeOf (Receive (ctx ''B'' ''A'')
                    (MsgAppendEntries (appendThird\<lparr>ae_LeaderCommit := 0\<rparr>)) followerB3))
       = log followerB3"
proof -
  have h2: "accepts appendThird (handleExternalTerm (ae_Term appendThird) followerB)"
    by (simp add: eval_defs followerB_def appendThird_def)
  have h3: "length (log followerB) < 2 ^ 63" "ae_PrevLogIndex appendThird < 2 ^ 64"
    by (simp_all add: followerB_def appendThird_def NewNode_def)
  have l: "length (log followerB) = 2 \<and> length (log followerB3) = 3"
    using followerB3_eval by (simp add: followerB_def NewNode_def)
  note r = appendEntries_idempotent[OF h2 h3, of "appendThird\<lparr>ae_LeaderCommit := 0\<rparr>"
      "ctx ''B'' ''A''" "ctx ''B'' ''A''", folded followerB3_def]
  have "log (nodeOf (Receive (ctx ''B'' ''A'')
                    (MsgAppendEntries (appendThird\<lparr>ae_LeaderCommit := 0\<rparr>)) followerB3))
       = log followerB3"
    by (rule r) simp_all
  with followerB3_Inr h2 h3 l show ?thesis by blast
qed

section \<open>The commit index\<close>

lemma dispatch_commitIndex_cases:
  "commitIndex (nodeOf (dispatch act m node)) = commitIndex node
   \<or> (\<exists>msg. m = MsgAppendEntries msg
         \<and> commitIndex (nodeOf (dispatch act m node))
             = commitIndex (bodyNode (appendEntriesBody msg
                                        (handleExternalTerm (ae_Term msg) node))))"
  by (cases m) simp_all

lemma dispatch_commitIndex:
  assumes "validNode node" and "validMessage m" and "\<not> lowersCommitIndex m node"
  shows "commitIndex node \<le> commitIndex (nodeOf (dispatch act m node))"
proof (cases m)
  case (MsgAppendEntries msg)
  define node0 where "node0 = handleExternalTerm (ae_Term msg) node"
  have len: "length (log node0) < 2 ^ 63" using assms(1) by (simp add: node0_def validNode_def)
  have prev: "ae_PrevLogIndex msg < 2 ^ 64" using assms(2) MsgAppendEntries by simp
  have c0: "commitIndex node0 = commitIndex node" by (simp add: node0_def)
  from assms(3) MsgAppendEntries
  have "\<not> (accepts msg node0 \<and> ae_LeaderCommit msg > commitIndex node
           \<and> ae_PrevLogIndex msg + length (ae_Entries msg) < commitIndex node)"
    by (simp add: node0_def)
  then have "commitIndex node \<le> commitIndex (bodyNode (appendEntriesBody msg node0))"
    unfolding bodyNode_commitIndex[OF len prev] c0 by auto
  with MsgAppendEntries show ?thesis by (simp add: node0_def)
qed simp_all

text \<open>
  Condition 5 sets \<open>commitIndex\<close> to \<open>2^64 - 1\<close> only for a message with no entry
  that was accepted on an empty log.
\<close>

lemma dispatch_last_commitIndex:
  assumes "validNode node" and "validMessage m"
    and "commitIndex (nodeOf (dispatch act m node)) \<noteq> commitIndex node"
    and "commitIndex (nodeOf (dispatch act m node)) = 2 ^ 64 - 1"
  shows "log (nodeOf (dispatch act m node)) = []"
proof -
  from dispatch_commitIndex_cases[of act m node] assms(3) obtain msg where
    m: "m = MsgAppendEntries msg" by auto
  define node0 where "node0 = handleExternalTerm (ae_Term msg) node"
  have len: "length (log node0) < 2 ^ 63" using assms(1) by (simp add: node0_def validNode_def)
  have prev: "ae_PrevLogIndex msg < 2 ^ 64" using assms(2) m by simp
  have c0: "commitIndex node0 = commitIndex node" by (simp add: node0_def)
  from assms(3,4) m have ci: "commitIndex (bodyNode (appendEntriesBody msg node0))
      \<noteq> commitIndex node0"
    "commitIndex (bodyNode (appendEntriesBody msg node0)) = 2 ^ 64 - 1"
    by (simp_all add: node0_def)
  from ci(1) have acc: "accepts msg node0"
    unfolding bodyNode_commitIndex[OF len prev] by (auto split: if_splits)
  from ci have big: "ae_PrevLogIndex msg + length (ae_Entries msg) \<ge> 2 ^ 64 - 1"
    unfolding bodyNode_commitIndex[OF len prev] by (auto split: if_splits)
  from accepts_valid[OF acc len prev] big len
  have e: "log node0 = []" "ae_Entries msg = []" by auto
  from accepts_newEntryIndex[OF acc len prev] e
  have "log (bodyNode (appendEntriesBody msg node0)) = []" by simp
  with m show ?thesis by (simp add: node0_def)
qed

lemma Receive_commitIndex:
  assumes "validNode node" and "validMessage m" and "\<not> lowersCommitIndex m node"
    and "commitIndex node \<noteq> 2 ^ 64 - 1"
  shows "commitIndex node \<le> commitIndex (nodeOf (Receive act m node))"
proof (cases "dispatch act m node")
  case (Inl p)
  from dispatch_commitIndex[OF assms(1-3), of act] Inl show ?thesis by (simp add: Receive_def)
next
  case (Inr n1)
  from dispatch_commitIndex[OF assms(1-3), of act] Inr
  have le: "commitIndex node \<le> commitIndex n1" by simp
  have "commitIndex n1 \<noteq> 2 ^ 64 - 1 \<or> log n1 = []"
  proof (cases "commitIndex n1 = commitIndex node")
    case True
    with assms(4) show ?thesis by simp
  next
    case False
    with dispatch_last_commitIndex[OF assms(1,2), of act] Inr show ?thesis by auto
  qed
  from updateStateMachine_commitIndex[OF this, of act] le
  have "commitIndex node \<le> commitIndex (nodeOf (updateStateMachine act n1))" by simp
  then show ?thesis using Inr by (simp add: Receive_def)
qed

lemma lowersCommitIndex_lowers:
  assumes "validNode node" and "validMessage m" and "lowersCommitIndex m node"
  shows "commitIndex (nodeOf (dispatch act m node)) < commitIndex node"
proof -
  from assms(3) obtain msg where m: "m = MsgAppendEntries msg" by (cases m) simp_all
  define node0 where "node0 = handleExternalTerm (ae_Term msg) node"
  have len: "length (log node0) < 2 ^ 63" using assms(1) by (simp add: node0_def validNode_def)
  have prev: "ae_PrevLogIndex msg < 2 ^ 64" using assms(2) m by simp
  have c0: "commitIndex node0 = commitIndex node" by (simp add: node0_def)
  from assms(3) m
  have "accepts msg node0" "ae_LeaderCommit msg > commitIndex node"
    "ae_PrevLogIndex msg + length (ae_Entries msg) < commitIndex node"
    by (simp_all add: node0_def)
  then have "commitIndex (bodyNode (appendEntriesBody msg node0)) < commitIndex node"
    unfolding bodyNode_commitIndex[OF len prev] c0 by simp
  with m show ?thesis by (simp add: node0_def)
qed

text \<open>
  C5, as the code has it, for a node and a message that Go can hold (a log of fewer
  than \<open>2^63\<close> entries, a \<open>PrevLogIndex\<close> below \<open>2^64\<close>): \<open>commitIndex\<close> does not decrease
  when the node handles the message, advance step included, unless the message is an
  accepted AppendEntries with \<open>LeaderCommit\<close> above \<open>commitIndex\<close> whose last entry index
  \<open>PrevLogIndex + len(Entries)\<close> is below \<open>commitIndex\<close>; for such a message the handler
  lowers \<open>commitIndex\<close>. The node is not at \<open>commitIndex = 2^64 - 1\<close>, where the bound
  \<open>commitIndex+1\<close> of the leader's scan wraps to 0.
\<close>

theorem commitIndex_monotone:
  assumes "validNode node" and "validMessage m"
  shows "(\<not> lowersCommitIndex m node \<and> commitIndex node \<noteq> 2 ^ 64 - 1 \<longrightarrow>
            commitIndex node \<le> commitIndex (nodeOf (Receive act m node)))
         \<and> (lowersCommitIndex m node \<longrightarrow>
            commitIndex (nodeOf (dispatch act m node)) < commitIndex node)"
  using Receive_commitIndex[OF assms, of act] lowersCommitIndex_lowers[OF assms, of act]
  by blast

text \<open>The message with a third entry raises B's \<open>commitIndex\<close> from 2 to 3.\<close>

theorem commitIndex_monotone_witness:
  "validNode followerB \<and> validMessage (MsgAppendEntries appendThird)
   \<and> \<not> lowersCommitIndex (MsgAppendEntries appendThird) followerB
   \<and> commitIndex followerB \<noteq> 2 ^ 64 - 1
   \<and> commitIndex followerB
       \<le> commitIndex (nodeOf (Receive (ctx ''B'' ''A'') (MsgAppendEntries appendThird)
                                followerB))
   \<and> validMessage (MsgAppendEntries emptyFromStart)
   \<and> lowersCommitIndex (MsgAppendEntries emptyFromStart) followerB
   \<and> commitIndex (nodeOf (dispatch (ctx ''B'' ''A'') (MsgAppendEntries emptyFromStart)
                            followerB)) < commitIndex followerB"
proof -
  have v: "validNode followerB" "validMessage (MsgAppendEntries appendThird)"
    "validMessage (MsgAppendEntries emptyFromStart)"
    by (simp_all add: validNode_def followerB_def appendThird_def emptyFromStart_def
          NewNode_def)
  have h: "\<not> lowersCommitIndex (MsgAppendEntries appendThird) followerB"
    "commitIndex followerB \<noteq> 2 ^ 64 - 1"
    by (simp_all add: followerB_def appendThird_def NewNode_def)
  have l: "lowersCommitIndex (MsgAppendEntries emptyFromStart) followerB"
    by (simp add: eval_defs followerB_def emptyFromStart_def)
  from commitIndex_monotone[OF v(1,2), of "ctx ''B'' ''A''"] h
  have p1: "commitIndex followerB
       \<le> commitIndex (nodeOf (Receive (ctx ''B'' ''A'') (MsgAppendEntries appendThird)
                                followerB))" by blast
  from commitIndex_monotone[OF v(1,3), of "ctx ''B'' ''A''"] l
  have p2: "commitIndex (nodeOf (dispatch (ctx ''B'' ''A'') (MsgAppendEntries emptyFromStart)
                            followerB)) < commitIndex followerB" by blast
  from v h l p1 p2 show ?thesis by blast
qed

text \<open>
  At \<open>commitIndex = 2^64 - 1\<close> the scan of a leader starts although no index is above
  \<open>commitIndex\<close>: the leader A with both peers matching its entry of index 1 sets
  \<open>commitIndex\<close> to 1.
\<close>

lemma leader_scan_wraps:
  "commitIndex lastIndexLeader = 18446744073709551615
   \<and> commitIndex (nodeOf (Receive (ctx ''A'' ''C'') MsgPing lastIndexLeader)) = 1"
  by (simp add: eval_defs lastIndexLeader_def leaderABC_def leaderA_def)

text \<open>
  C5 as stated fails: B has \<open>commitIndex = 2\<close> and accepts a message of its term with
  \<open>PrevLogIndex = 0\<close>, no entry and \<open>LeaderCommit = 3\<close>; condition 5 sets
  \<open>commitIndex = min(3, 0)\<close>.
\<close>

theorem appendEntries_lowers_commitIndex:
  "commitIndex followerB = 2
   \<and> \<not> isl (Receive (ctx ''B'' ''A'') (MsgAppendEntries emptyFromStart) followerB)
   \<and> commitIndex (nodeOf (Receive (ctx ''B'' ''A'') (MsgAppendEntries emptyFromStart)
                            followerB)) = 0
   \<and> \<not> commitIndex followerB
         \<le> commitIndex (nodeOf (Receive (ctx ''B'' ''A'') (MsgAppendEntries emptyFromStart)
                                  followerB))"
  by (simp add: eval_defs followerB_def emptyFromStart_def)

section \<open>The invariant of the indices\<close>

lemma applyLoop_returns:
  "lastApplied node \<le> commitIndex node \<Longrightarrow> commitIndex node \<le> length (log node) \<Longrightarrow>
   \<exists>node'. applyLoop node = Inr node' \<and> lastApplied node' = commitIndex node"
proof (induction node rule: applyLoop.induct)
  case (1 node)
  show ?case
  proof (cases "commitIndex node > lastApplied node")
    case False
    with "1.prems" show ?thesis by (simp add: applyLoop.simps[of node])
  next
    case True
    let ?n1 = "node\<lparr>lastApplied := lastApplied node + 1\<rparr>"
    have inr: "lastApplied ?n1 - 1 < length (log ?n1)" using True "1.prems" by simp
    have eq: "applyLoop node = applyLoop (applyEntry ?n1)"
      using True inr by (simp add: applyLoop.simps[of node])
    have "\<exists>node'. applyLoop (applyEntry ?n1) = Inr node'
        \<and> lastApplied node' = commitIndex (applyEntry ?n1)"
      using True "1.prems" inr by (intro "1.IH"[OF True refl]) simp_all
    then show ?thesis unfolding eq by simp
  qed
qed

text \<open>
  On a node that satisfies the invariant the advance step returns: the bound of the
  scan has not wrapped, and every entry the loop applies is in the log.
\<close>

lemma updateStateMachine_invariant:
  assumes inv: "logIndexInvariant node" and len: "length (log node) < 2 ^ 64 - 1"
  shows "\<exists>node'. updateStateMachine act node = Inr node' \<and> logIndexInvariant node'"
proof -
  define r where "r = (if pidEquals (leader node) (Some (act_PID act))
                then commitScan node (length (log node)) else Inr node)"
  have ci: "commitIndex node \<noteq> 2 ^ 64 - 1" using inv len by (simp add: logIndexInvariant_def)
  obtain c where c: "nodeOf (commitScan node (length (log node))) = node\<lparr>commitIndex := c\<rparr>"
      "c \<le> max (commitIndex node) (length (log node))" "commitIndex node \<le> c"
      "\<not> isl (commitScan node (length (log node)))"
    using commitScan_frame[of node "length (log node)"] ci by blast
  have nr: "\<not> isl r" using c(4) by (simp add: r_def)
  then obtain n1 where n1: "r = Inr n1" by (cases r) simp_all
  then have "n1 = nodeOf r" by simp
  then have f: "lastApplied n1 \<le> commitIndex n1" "commitIndex n1 \<le> length (log n1)"
    using inv c by (auto simp: r_def logIndexInvariant_def)
  from applyLoop_returns[OF f] obtain node' where
    a: "applyLoop n1 = Inr node'" "lastApplied node' = commitIndex n1" by blast
  from applyLoop_fields[of n1] a(1) have "log node' = log n1" "commitIndex node' = commitIndex n1"
    by simp_all
  with f a n1 show ?thesis
    by (simp add: updateStateMachine_def r_def[symmetric] logIndexInvariant_def)
qed

lemma handleCommand_log:
  "length (log node) \<le> length (log (nodeOf (handleCommand act cmd node)))
   \<and> length (log (nodeOf (handleCommand act cmd node))) \<le> length (log node) + 1"
  by (simp add: handleCommand_def Let_def)

lemma appendEntriesLoop_length:
  "length lg < 2 ^ 63 \<Longrightarrow> idx < 2 ^ 64 \<Longrightarrow>
   length (loopLog (appendEntriesLoop es lg idx)) < 2 ^ 63"
proof (induction es arbitrary: lg idx)
  case Nil
  then show ?case by simp
next
  case (Cons e es)
  show ?case
  proof (cases "idx + 1 < 2 ^ 63")
    case False
    from appendEntriesLoop_weird_step[OF Cons.prems False] Cons.prems(1) show ?thesis by simp
  next
    case True
    define lg2 where "lg2 = (let lg1 = (if length lg \<ge> idx + 1 \<and> le_Term (lg ! idx) \<noteq> le_Term e
                   then take idx lg else lg)
        in if length lg1 < idx + 1 then lg1 @ [e] else lg1)"
    have l: "length lg2 < 2 ^ 63" using Cons.prems(1) True by (auto simp: lg2_def Let_def)
    have i: "idx + 1 < 2 ^ 64" using True by simp
    from Cons.IH[OF l i] show ?thesis
      unfolding appendEntriesLoop_step[OF True] lg2_def .
  qed
qed

lemma dispatch_length:
  assumes "validNode node" and "validMessage m"
  shows "length (log (nodeOf (dispatch act m node))) < 2 ^ 64 - 1"
proof (cases m)
  case (MsgAppendEntries msg)
  define node0 where "node0 = handleExternalTerm (ae_Term msg) node"
  have len: "length (log node0) < 2 ^ 63" using assms(1) by (simp add: node0_def validNode_def)
  have prev: "ae_PrevLogIndex msg < 2 ^ 64" using assms(2) MsgAppendEntries by simp
  from bodyNode_log[of msg node0] appendEntriesLoop_length[OF len prev, of "ae_Entries msg"] len
  have "length (log (bodyNode (appendEntriesBody msg node0))) < 2 ^ 63" by auto
  with MsgAppendEntries show ?thesis by (simp add: node0_def)
next
  case (MsgCommand cmd)
  with assms(1) handleCommand_log[of node act cmd] show ?thesis
    by (simp add: validNode_def)
qed (use assms(1) in \<open>simp_all add: validNode_def\<close>)

lemma rejected_log:
  assumes "\<not> accepts msg node" and "\<not> isl (appendEntriesBody msg node)"
  shows "log (bodyNode (appendEntriesBody msg node)) = log node"
proof (cases "passesConditions msg node")
  case True
  with assms(1) have "isl (appendEntriesLoop (ae_Entries msg) (log node) (ae_PrevLogIndex msg))"
    by (simp add: accepts_iff)
  then have "isl (appendEntriesBody msg node)"
    by (cases "appendEntriesLoop (ae_Entries msg) (log node) (ae_PrevLogIndex msg)")
       (simp_all add: appendEntriesBody_passes[OF True])
  with assms(2) show ?thesis by simp
next
  case False
  from appendEntriesBody_fails[OF this] show ?thesis by auto
qed

lemma accepts_length:
  assumes acc: "accepts msg node" and len: "length (log node) < 2 ^ 63"
    and prev: "ae_PrevLogIndex msg < 2 ^ 64" and small: "ae_PrevLogIndex msg < 2 ^ 63"
  shows "ae_PrevLogIndex msg + length (ae_Entries msg)
           \<le> length (log (bodyNode (appendEntriesBody msg node)))"
proof -
  note lp = accepts_newEntryIndex[OF acc len prev]
  from accepts_valid[OF acc len prev] small
  have le: "ae_PrevLogIndex msg \<le> length (log node)"
    and can: "ae_Entries msg = [] \<or> ae_PrevLogIndex msg + length (ae_Entries msg) < 2 ^ 63"
    by auto
  from can show ?thesis
  proof
    assume "ae_Entries msg = []" with lp le show ?thesis by simp
  next
    assume "ae_PrevLogIndex msg + length (ae_Entries msg) < 2 ^ 63"
    from appendEntriesLoop_terms[OF le this] lp show ?thesis by simp
  qed
qed

lemma appendEntries_invariant:
  assumes inv: "logIndexInvariant node" and len0: "validNode node"
    and prev: "ae_PrevLogIndex msg < 2 ^ 64"
    and safe: "\<not> unsafeAppendEntries (MsgAppendEntries msg) node"
    and ret: "\<not> isl (handleAppendEntries act msg (handleExternalTerm (ae_Term msg) node))"
  shows "logIndexInvariant
           (nodeOf (handleAppendEntries act msg (handleExternalTerm (ae_Term msg) node)))"
proof -
  define node0 where "node0 = handleExternalTerm (ae_Term msg) node"
  have f0: "log node0 = log node" "commitIndex node0 = commitIndex node"
    "lastApplied node0 = lastApplied node"
    by (simp_all add: node0_def)
  have len: "length (log node0) < 2 ^ 63" using len0 by (simp add: f0 validNode_def)
  note ci = bodyNode_commitIndex[OF len prev, unfolded f0]
  let ?N = "ae_PrevLogIndex msg + length (ae_Entries msg)"
  let ?lg = "log (bodyNode (appendEntriesBody msg node0))"
  show ?thesis
  proof (cases "accepts msg node0")
    case False
    from ret have "\<not> isl (appendEntriesBody msg node0)"
      by (simp add: handleAppendEntries_isl node0_def)
    from rejected_log[OF False this] have "?lg = log node" by (simp add: f0)
    with False inv ci show ?thesis
      by (simp add: logIndexInvariant_def node0_def[symmetric] f0)
  next
    case True
    note lp = accepts_newEntryIndex[OF True len prev, unfolded f0]
    note av = accepts_valid[OF True len prev, unfolded f0]
    show ?thesis
    proof (cases "ae_LeaderCommit msg > commitIndex node")
      case lc: True
      with safe True have la: "lastApplied node \<le> ?N" and small: "ae_PrevLogIndex msg < 2 ^ 63"
        by (simp_all add: node0_def)
      from accepts_length[OF True len prev small] have "?N \<le> length ?lg" .
      with lc True la inv ci show ?thesis
        by (simp add: logIndexInvariant_def node0_def[symmetric] f0)
    next
      case lc: False
      have "commitIndex node \<le> length ?lg"
      proof (cases "ae_Entries msg = []")
        case True
        with lp inv show ?thesis by (simp add: logIndexInvariant_def)
      next
        case ne: False
        with av have le: "ae_PrevLogIndex msg \<le> length (log node)" and can: "?N < 2 ^ 63"
          by auto
        from lc safe True have "commitIndex node \<le> ?N
            \<or> \<not> conflicts (ae_Entries msg) (log node) (ae_PrevLogIndex msg)"
          by (auto simp: node0_def)
        then show ?thesis
        proof
          assume "commitIndex node \<le> ?N"
          with appendEntriesLoop_terms[OF le can] lp show ?thesis by simp
        next
          assume "\<not> conflicts (ae_Entries msg) (log node) (ae_PrevLogIndex msg)"
          from appendEntriesLoop_no_conflict[OF le can this] lp inv show ?thesis
            by (simp add: logIndexInvariant_def)
        qed
      qed
      with lc True inv ci show ?thesis
        by (simp add: logIndexInvariant_def node0_def[symmetric] f0)
    qed
  qed
qed

lemma dispatch_invariant:
  assumes "logIndexInvariant node" "validNode node" "validMessage m"
    "\<not> unsafeAppendEntries m node" "\<not> isl (dispatch act m node)"
  shows "logIndexInvariant (nodeOf (dispatch act m node))"
proof (cases m)
  case (MsgAppendEntries msg)
  with assms appendEntries_invariant[of node msg act] show ?thesis by simp
next
  case (MsgCommand cmd)
  with assms(1) handleCommand_log[of node act cmd] show ?thesis
    by (simp add: logIndexInvariant_def)
qed (use assms(1) in \<open>simp_all add: logIndexInvariant_def\<close>)

lemma Receive_invariant:
  assumes "logIndexInvariant node" "validNode node" "validMessage m"
    and "\<not> unsafeAppendEntries m node"
  shows "(Receive act m node = Inr node' \<longrightarrow> logIndexInvariant node')
     \<and> (isl (Receive act m node) \<longrightarrow> isl (dispatch act m node))"
proof (cases "dispatch act m node")
  case (Inl p)
  then show ?thesis by (simp add: Receive_def)
next
  case (Inr n1)
  with dispatch_invariant[OF assms, of act] have i: "logIndexInvariant n1" by simp
  from dispatch_length[OF assms(2,3), of act] Inr have "length (log n1) < 2 ^ 64 - 1" by simp
  from updateStateMachine_invariant[OF i this, of act] Inr show ?thesis
    by (auto simp: Receive_def)
qed

lemma ReceiveAll_invariant:
  "logIndexInvariant node \<Longrightarrow> safeRun ms node \<Longrightarrow> ReceiveAll ms node = Inr node' \<Longrightarrow>
   logIndexInvariant node'"
proof (induction ms arbitrary: node)
  case Nil
  then show ?case by simp
next
  case (Cons am ms)
  obtain act m where am: "am = (act, m)" by (cases am)
  from Cons.prems(3) am obtain n1 where n1: "Receive act m node = Inr n1"
    "ReceiveAll ms n1 = Inr node'"
    by (cases "Receive act m node") simp_all
  from Cons.prems(2) am n1 have safe: "validNode node" "validMessage m"
    "\<not> unsafeAppendEntries m node" "safeRun ms n1"
    by simp_all
  from Receive_invariant[OF Cons.prems(1) safe(1-3), of act n1] n1 have "logIndexInvariant n1"
    by simp
  from Cons.IH[OF this safe(4) n1(2)] show ?case .
qed

lemma unsafeAppendEntries_breaks:
  assumes inv: "logIndexInvariant node" and len0: "validNode node" and vm: "validMessage m"
    and unsafe: "unsafeAppendEntries m node"
  shows "\<not> isl (dispatch act m node) \<and> \<not> logIndexInvariant (nodeOf (dispatch act m node))"
proof -
  from unsafe obtain msg where m: "m = MsgAppendEntries msg" by (cases m) simp_all
  define node0 where "node0 = handleExternalTerm (ae_Term msg) node"
  have f0: "log node0 = log node" "commitIndex node0 = commitIndex node"
    "lastApplied node0 = lastApplied node"
    by (simp_all add: node0_def)
  have len: "length (log node0) < 2 ^ 63" using len0 by (simp add: f0 validNode_def)
  have prev: "ae_PrevLogIndex msg < 2 ^ 64" using vm m by simp
  note ci = bodyNode_commitIndex[OF len prev, unfolded f0]
  let ?N = "ae_PrevLogIndex msg + length (ae_Entries msg)"
  let ?lg = "log (bodyNode (appendEntriesBody msg node0))"
  from unsafe m have acc: "accepts msg node0" by (simp add: node0_def)
  note lp = accepts_newEntryIndex[OF acc len prev, unfolded f0]
  note av = accepts_valid[OF acc len prev, unfolded f0]
  have ret: "\<not> isl (dispatch act m node)"
    using handleAppendEntries_accepts[OF acc, of act] m by (simp add: node0_def)
  have "\<not> logIndexInvariant (nodeOf (dispatch act m node))"
  proof (cases "ae_LeaderCommit msg > commitIndex node")
    case True
    with unsafe m have "?N < lastApplied node \<or> ae_PrevLogIndex msg \<ge> 2 ^ 63" by simp
    then show ?thesis
    proof
      assume "?N < lastApplied node"
      with True acc ci show ?thesis
        by (simp add: m logIndexInvariant_def node0_def[symmetric] f0)
    next
      assume big: "ae_PrevLogIndex msg \<ge> 2 ^ 63"
      with av len have e: "log node = []" "ae_Entries msg = []" by (auto simp: f0)
      with lp have "?lg = []" by simp
      moreover have "min (ae_LeaderCommit msg) ?N > 0" using True big e by simp
      ultimately show ?thesis using True acc ci
        by (simp add: m logIndexInvariant_def node0_def[symmetric] f0)
    qed
  next
    case False
    with unsafe m have lt: "?N < commitIndex node"
      and cf: "conflicts (ae_Entries msg) (log node) (ae_PrevLogIndex msg)" by simp_all
    from cf have "ae_Entries msg \<noteq> []" by auto
    with av have le: "ae_PrevLogIndex msg \<le> length (log node)" and can: "?N < 2 ^ 63"
      by auto
    from appendEntriesLoop_conflict_length[OF le can cf] lp have "length ?lg = ?N" by simp
    with lt False acc ci show ?thesis
      by (simp add: m logIndexInvariant_def node0_def[symmetric] f0)
  qed
  with ret show ?thesis by simp
qed

text \<open>
  C2, as the code has it, for nodes and messages that Go can hold (a log of fewer than
  \<open>2^63\<close> entries, a \<open>PrevLogIndex\<close> below \<open>2^64\<close>). A new node satisfies
  \<open>lastApplied \<le> commitIndex \<le> len(log)\<close>, and the invariant holds after every run of
  messages, the advance step included, that starts from a node satisfying it and has no
  unsafe message: an accepted AppendEntries with \<open>LeaderCommit > commitIndex\<close> whose last
  entry index is below \<open>lastApplied\<close> or whose \<open>PrevLogIndex\<close> is \<open>2^63\<close> or more, or
  with \<open>LeaderCommit \<le> commitIndex\<close>, a last entry index below \<open>commitIndex\<close> and an
  entry that conflicts with the log. For one message that is not unsafe: the node
  \<open>Receive\<close> returns satisfies the invariant, and when \<open>Receive\<close> panics, the handler
  did, not the advance step. The handler of an unsafe message returns and has broken the
  invariant.
\<close>

theorem logIndexInvariant_preserved:
  "logIndexInvariant (NewNode cfg)
   \<and> (logIndexInvariant node \<and> safeRun ms node \<and> ReceiveAll ms node = Inr node'
        \<longrightarrow> logIndexInvariant node')
   \<and> (logIndexInvariant node \<and> validNode node \<and> validMessage m
        \<and> \<not> unsafeAppendEntries m node
        \<longrightarrow> (Receive act m node = Inr node1 \<longrightarrow> logIndexInvariant node1)
            \<and> (isl (Receive act m node) \<longrightarrow> isl (dispatch act m node)))
   \<and> (logIndexInvariant node \<and> validNode node \<and> validMessage m
        \<and> unsafeAppendEntries m node
        \<longrightarrow> \<not> isl (dispatch act m node)
            \<and> \<not> logIndexInvariant (nodeOf (dispatch act m node)))"
  using ReceiveAll_invariant[of node ms node'] Receive_invariant[of node m act node1]
    unsafeAppendEntries_breaks[of node m act]
  by (simp add: logIndexInvariant_def NewNode_def)

text \<open>
  B keeps the invariant when it accepts the message with a third entry, and when it
  handles the message a second time. The message of term 2 with a conflicting entry at
  index 1 is unsafe for B, and its handler returns with the invariant broken.
\<close>

theorem logIndexInvariant_preserved_witness:
  "logIndexInvariant followerB
   \<and> safeRun replayRun followerB
   \<and> ReceiveAll replayRun followerB = Inr (nodeOf (ReceiveAll replayRun followerB))
   \<and> logIndexInvariant (nodeOf (ReceiveAll replayRun followerB))
   \<and> validNode followerB \<and> validMessage (MsgAppendEntries appendThird)
   \<and> \<not> unsafeAppendEntries (MsgAppendEntries appendThird) followerB
   \<and> Receive (ctx ''B'' ''A'') (MsgAppendEntries appendThird) followerB = Inr followerB3
   \<and> logIndexInvariant followerB3
   \<and> validMessage (MsgAppendEntries conflictingEntry)
   \<and> unsafeAppendEntries (MsgAppendEntries conflictingEntry) followerB
   \<and> \<not> logIndexInvariant
         (nodeOf (dispatch (ctx ''B'' ''C'') (MsgAppendEntries conflictingEntry) followerB))"
proof -
  have h1: "logIndexInvariant followerB"
    by (simp add: logIndexInvariant_def followerB_def NewNode_def)
  have v: "validNode followerB \<and> validMessage (MsgAppendEntries appendThird)
      \<and> validMessage (MsgAppendEntries conflictingEntry)"
    by (simp add: validNode_def followerB_def appendThird_def conflictingEntry_def NewNode_def)
  have h2: "\<not> unsafeAppendEntries (MsgAppendEntries appendThird) followerB"
    by (simp add: followerB_def appendThird_def NewNode_def)
  have h3: "ReceiveAll replayRun followerB = Inr (nodeOf (ReceiveAll replayRun followerB))"
    using replayRun_eval by (intro not_isl_Inr) simp
  have h4: "unsafeAppendEntries (MsgAppendEntries conflictingEntry) followerB"
    by (simp add: eval_defs followerB_def conflictingEntry_def)
  from logIndexInvariant_preserved[where node = followerB and ms = replayRun
      and node' = "nodeOf (ReceiveAll replayRun followerB)" and cfg = exampleConfig
      and m = "MsgAppendEntries appendThird" and act = "ctx ''B'' ''A''"
      and ?node1.0 = followerB3]
    h1 v h2 h3 replayRun_eval followerB3_Inr
  have p1: "logIndexInvariant (nodeOf (ReceiveAll replayRun followerB))
      \<and> logIndexInvariant followerB3"
    by simp
  from logIndexInvariant_preserved[where node = followerB
      and m = "MsgAppendEntries conflictingEntry" and act = "ctx ''B'' ''C''"]
    h1 v h4
  have p2: "\<not> logIndexInvariant
         (nodeOf (dispatch (ctx ''B'' ''C'') (MsgAppendEntries conflictingEntry) followerB))"
    by blast
  from h1 v h2 h3 h4 p1 p2 replayRun_eval followerB3_Inr show ?thesis by blast
qed

lemma initialized_eval:
  "Receive (ctx ''B'' ''B'') MsgInitialized (NewNode exampleConfig) = Inr initialized"
  by (simp add: eval_defs initialized_def)

lemma negativePrevLogIndex_eval:
  "dispatch (ctx ''B'' ''A'') (MsgAppendEntries negativePrevLogIndex) initialized
     = Inr (initialized
              \<lparr>leader := Some ''A'', currentTerm := 1, commitIndex := 5, electionTimer := 2,
               sent := [(Some ''A'', MsgAppendEntriesResult
                           \<lparr>aer_PID = ''B'', aer_Term = 1, aer_Success = True\<rparr>)]\<rparr>)"
  by (simp add: eval_defs initialized_def negativePrevLogIndex_def)

lemma followerB_breaks:
  "logIndexInvariant followerB
   \<and> \<not> isl (Receive (ctx ''B'' ''C'') (MsgAppendEntries conflictingEntry) followerB)
   \<and> log (nodeOf (Receive (ctx ''B'' ''C'') (MsgAppendEntries conflictingEntry) followerB))
       = [\<lparr>le_Command = ''z=3'', le_Term = 2\<rparr>]
   \<and> commitIndex (nodeOf (Receive (ctx ''B'' ''C'') (MsgAppendEntries conflictingEntry)
                            followerB)) = 2
   \<and> lastApplied (nodeOf (Receive (ctx ''B'' ''C'') (MsgAppendEntries conflictingEntry)
                            followerB)) = 2
   \<and> \<not> logIndexInvariant
         (nodeOf (Receive (ctx ''B'' ''C'') (MsgAppendEntries conflictingEntry) followerB))
   \<and> \<not> isl (Receive (ctx ''B'' ''A'') (MsgAppendEntries emptyFromStart) followerB)
   \<and> commitIndex (nodeOf (Receive (ctx ''B'' ''A'') (MsgAppendEntries emptyFromStart)
                            followerB)) = 0
   \<and> lastApplied (nodeOf (Receive (ctx ''B'' ''A'') (MsgAppendEntries emptyFromStart)
                            followerB)) = 2
   \<and> \<not> logIndexInvariant
         (nodeOf (Receive (ctx ''B'' ''A'') (MsgAppendEntries emptyFromStart) followerB))"
  by (simp add: eval_defs followerB_def conflictingEntry_def emptyFromStart_def
        logIndexInvariant_def)

lemma negativePrevLogIndex_breaks:
  "Receive (ctx ''B'' ''B'') MsgInitialized (NewNode exampleConfig) = Inr initialized
   \<and> logIndexInvariant initialized
   \<and> \<not> isl (dispatch (ctx ''B'' ''A'') (MsgAppendEntries negativePrevLogIndex) initialized)
   \<and> commitIndex (nodeOf (dispatch (ctx ''B'' ''A'') (MsgAppendEntries negativePrevLogIndex)
                            initialized)) = 5
   \<and> log (nodeOf (dispatch (ctx ''B'' ''A'') (MsgAppendEntries negativePrevLogIndex)
                    initialized)) = []
   \<and> isl (Receive (ctx ''B'' ''A'') (MsgAppendEntries negativePrevLogIndex) initialized)
   \<and> \<not> logIndexInvariant
         (nodeOf (Receive (ctx ''B'' ''A'') (MsgAppendEntries negativePrevLogIndex)
                    initialized))"
proof -
  have a: "logIndexInvariant initialized"
    by (simp add: initialized_def NewNode_def logIndexInvariant_def)
  have b: "isl (Receive (ctx ''B'' ''A'') (MsgAppendEntries negativePrevLogIndex) initialized)
     \<and> \<not> logIndexInvariant
         (nodeOf (Receive (ctx ''B'' ''A'') (MsgAppendEntries negativePrevLogIndex)
                    initialized))"
    unfolding Receive_def negativePrevLogIndex_eval
    by (simp add: eval_defs initialized_def logIndexInvariant_def)
  have c: "\<not> isl (dispatch (ctx ''B'' ''A'') (MsgAppendEntries negativePrevLogIndex)
                    initialized)
     \<and> commitIndex (nodeOf (dispatch (ctx ''B'' ''A'') (MsgAppendEntries negativePrevLogIndex)
                              initialized)) = 5
     \<and> log (nodeOf (dispatch (ctx ''B'' ''A'') (MsgAppendEntries negativePrevLogIndex)
                      initialized)) = []"
    unfolding negativePrevLogIndex_eval by (simp add: initialized_def NewNode_def)
  from a b c initialized_eval show ?thesis by blast
qed

text \<open>
  C2 as stated fails: B holds two committed and applied entries of term 1 and accepts
  a message of term 2 whose entry at index 1 has term 2. Condition 3 cuts the log before
  index 1 and condition 4 appends the entry: the log has one entry, \<open>commitIndex\<close> and
  \<open>lastApplied\<close> are still 2. And when B accepts a message of its term with
  \<open>PrevLogIndex = 0\<close>, no entry and \<open>LeaderCommit = 3\<close>, condition 5 sets \<open>commitIndex\<close> to
  0, below \<open>lastApplied = 2\<close>. And a new node B, after \<open>Initialized\<close>, accepts a message
  with \<open>PrevLogIndex = 2^63\<close>, no entry and \<open>LeaderCommit = 5\<close> on its empty log: the
  handler returns with \<open>commitIndex = 5\<close> and no entry, and the advance step panics on
  \<open>log[0]\<close>.
\<close>

theorem appendEntries_cuts_committed_log:
  "logIndexInvariant followerB
   \<and> \<not> isl (Receive (ctx ''B'' ''C'') (MsgAppendEntries conflictingEntry) followerB)
   \<and> log (nodeOf (Receive (ctx ''B'' ''C'') (MsgAppendEntries conflictingEntry) followerB))
       = [\<lparr>le_Command = ''z=3'', le_Term = 2\<rparr>]
   \<and> commitIndex (nodeOf (Receive (ctx ''B'' ''C'') (MsgAppendEntries conflictingEntry)
                            followerB)) = 2
   \<and> lastApplied (nodeOf (Receive (ctx ''B'' ''C'') (MsgAppendEntries conflictingEntry)
                            followerB)) = 2
   \<and> \<not> logIndexInvariant
         (nodeOf (Receive (ctx ''B'' ''C'') (MsgAppendEntries conflictingEntry) followerB))
   \<and> \<not> isl (Receive (ctx ''B'' ''A'') (MsgAppendEntries emptyFromStart) followerB)
   \<and> commitIndex (nodeOf (Receive (ctx ''B'' ''A'') (MsgAppendEntries emptyFromStart)
                            followerB)) = 0
   \<and> lastApplied (nodeOf (Receive (ctx ''B'' ''A'') (MsgAppendEntries emptyFromStart)
                            followerB)) = 2
   \<and> \<not> logIndexInvariant
         (nodeOf (Receive (ctx ''B'' ''A'') (MsgAppendEntries emptyFromStart) followerB))
   \<and> Receive (ctx ''B'' ''B'') MsgInitialized (NewNode exampleConfig) = Inr initialized
   \<and> logIndexInvariant initialized
   \<and> \<not> isl (dispatch (ctx ''B'' ''A'') (MsgAppendEntries negativePrevLogIndex) initialized)
   \<and> commitIndex (nodeOf (dispatch (ctx ''B'' ''A'') (MsgAppendEntries negativePrevLogIndex)
                            initialized)) = 5
   \<and> log (nodeOf (dispatch (ctx ''B'' ''A'') (MsgAppendEntries negativePrevLogIndex)
                    initialized)) = []
   \<and> isl (Receive (ctx ''B'' ''A'') (MsgAppendEntries negativePrevLogIndex) initialized)
   \<and> \<not> logIndexInvariant
         (nodeOf (Receive (ctx ''B'' ''A'') (MsgAppendEntries negativePrevLogIndex)
                    initialized))"
  using followerB_breaks negativePrevLogIndex_breaks by blast

section \<open>Pending commands\<close>

lemma applyEntry_pending:
  "pendingCommands (applyEntry node) = (pendingCommands node)(lastApplied node := None)"
  by (auto simp: applyEntry_def Let_def split: option.splits)

lemma applyEntry_sent:
  "set (sent node) \<subseteq> set (sent (applyEntry node))"
  "pendingCommands node (lastApplied node) = Some c \<Longrightarrow>
     (sender c, commandApplied) \<in> set (sent (applyEntry node))"
  by (auto simp: applyEntry_def Let_def commandApplied_def split: option.splits)

lemma applyLoop_pending:
  "applyLoop node = Inr node' \<Longrightarrow>
     lastApplied node \<le> lastApplied node'
     \<and> set (sent node) \<subseteq> set (sent node')
     \<and> (\<forall>k. pendingCommands node' k =
            (if lastApplied node < k \<and> k \<le> lastApplied node' then None
             else pendingCommands node k))
     \<and> (\<forall>k c. lastApplied node < k \<and> k \<le> lastApplied node'
            \<and> pendingCommands node k = Some c
          \<longrightarrow> (sender c, commandApplied) \<in> set (sent node'))"
proof (induction node arbitrary: node' rule: applyLoop.induct)
  case (1 node)
  show ?case
  proof (cases "commitIndex node > lastApplied node")
    case False
    with "1.prems" show ?thesis by (auto simp: applyLoop.simps[of node])
  next
    case True
    let ?n1 = "node\<lparr>lastApplied := lastApplied node + 1\<rparr>"
    show ?thesis
    proof (cases "lastApplied ?n1 - 1 < length (log ?n1)")
      case False
      with True "1.prems" show ?thesis by (simp add: applyLoop.simps[of node])
    next
      case inr: True
      let ?n2 = "applyEntry ?n1"
      have eq: "applyLoop ?n2 = Inr node'"
        using True inr "1.prems" by (simp add: applyLoop.simps[of node])
      from inr have inr': "\<not> \<not> lastApplied ?n1 - 1 < length (log ?n1)" by simp
      note ih = "1.IH"[OF True refl inr' eq]
      have la: "lastApplied ?n2 = lastApplied node + 1" by simp
      have pc: "pendingCommands ?n2 = (pendingCommands node)(lastApplied node + 1 := None)"
        by (simp add: applyEntry_pending)
      have s1: "set (sent node) \<subseteq> set (sent ?n2)"
        using applyEntry_sent(1)[of ?n1] by simp
      have s2: "\<And>c. pendingCommands node (lastApplied node + 1) = Some c \<Longrightarrow>
          (sender c, commandApplied) \<in> set (sent ?n2)"
        using applyEntry_sent(2)[of ?n1] by simp
      from ih have a: "lastApplied node \<le> lastApplied node'" using la by simp
      from ih s1 have b: "set (sent node) \<subseteq> set (sent node')" by blast
      have c: "\<forall>k. pendingCommands node' k =
            (if lastApplied node < k \<and> k \<le> lastApplied node' then None
             else pendingCommands node k)"
      proof
        fix k
        from ih have "pendingCommands node' k =
            (if lastApplied ?n2 < k \<and> k \<le> lastApplied node' then None
             else pendingCommands ?n2 k)" by blast
        moreover from ih have "lastApplied ?n2 \<le> lastApplied node'" by blast
        ultimately show "pendingCommands node' k =
            (if lastApplied node < k \<and> k \<le> lastApplied node' then None
             else pendingCommands node k)"
          unfolding la pc by auto
      qed
      have d: "\<forall>k c. lastApplied node < k \<and> k \<le> lastApplied node'
            \<and> pendingCommands node k = Some c
          \<longrightarrow> (sender c, commandApplied) \<in> set (sent node')"
      proof (intro allI impI)
        fix k c
        assume h: "lastApplied node < k \<and> k \<le> lastApplied node'
            \<and> pendingCommands node k = Some c"
        show "(sender c, commandApplied) \<in> set (sent node')"
        proof (cases "k = lastApplied node + 1")
          case True
          with h s2 have "(sender c, commandApplied) \<in> set (sent ?n2)" by simp
          with ih show ?thesis by blast
        next
          case False
          with h have "lastApplied ?n2 < k \<and> k \<le> lastApplied node'
              \<and> pendingCommands ?n2 k = Some c"
            unfolding la pc by simp
          with ih show ?thesis by blast
        qed
      qed
      from a b c d show ?thesis by blast
    qed
  qed
qed


lemma updateStateMachine_Inr:
  assumes "updateStateMachine act node = Inr node'"
  obtains n1 where "applyLoop n1 = Inr node'" "pendingCommands n1 = pendingCommands node"
    "lastApplied n1 = lastApplied node" "sent n1 = sent node"
proof (cases "pidEquals (leader node) (Some (act_PID act))")
  case True
  with assms have
    "(case commitScan node (length (log node)) of Inl p \<Rightarrow> Inl p | Inr n1 \<Rightarrow> applyLoop n1)
       = Inr node'"
    by (simp add: updateStateMachine_def)
  then obtain n1 where n1: "commitScan node (length (log node)) = Inr n1"
    "applyLoop n1 = Inr node'"
    by (cases "commitScan node (length (log node))") simp_all
  from n1(1) have "n1 = nodeOf (commitScan node (length (log node)))" by simp
  then have "pendingCommands n1 = pendingCommands node" "lastApplied n1 = lastApplied node"
    "sent n1 = sent node" by simp_all
  with n1(2) that show ?thesis by blast
next
  case False
  with assms have "applyLoop node = Inr node'" by (simp add: updateStateMachine_def)
  with that show ?thesis by blast
qed

lemma updateStateMachine_pending:
  assumes "updateStateMachine act node = Inr node'"
  shows "lastApplied node \<le> lastApplied node'
     \<and> (\<forall>k. pendingCommands node' k =
            (if lastApplied node < k \<and> k \<le> lastApplied node' then None
             else pendingCommands node k))
     \<and> (\<forall>k c. lastApplied node < k \<and> k \<le> lastApplied node'
            \<and> pendingCommands node k = Some c
          \<longrightarrow> (sender c, commandApplied) \<in> set (sent node'))"
proof -
  from assms obtain n1 where n1: "applyLoop n1 = Inr node'"
    "pendingCommands n1 = pendingCommands node" "lastApplied n1 = lastApplied node"
    by (rule updateStateMachine_Inr)
  from applyLoop_pending[OF n1(1)] show ?thesis unfolding n1(2,3) by blast
qed

lemma dispatch_lastApplied [simp]:
  "lastApplied (nodeOf (dispatch act m node)) = lastApplied node"
  by (cases m) simp_all

text \<open>
  The handlers and the map: \<open>Initialized\<close> makes a new one, the leader's
  \<open>handleCommand\<close> writes the entry of the new index, and no other handler touches it.
\<close>

lemma dispatch_pending:
  "pendingCommands (nodeOf (dispatch act m node)) = pendingAfterHandler act m node"
  by (cases m) (simp_all add: handleCommand_def Let_def lastLogIndexAndTerm_def)

lemma applyEntry_sent_new:
  "\<exists>ms. sent (applyEntry node) = sent node @ ms
     \<and> (\<forall>c. pendingCommands node (lastApplied node) = Some c
           \<longrightarrow> (sender c, commandApplied) \<in> set ms)"
  by (auto simp: applyEntry_def Let_def commandApplied_def split: option.splits)

lemma applyLoop_replies:
  "applyLoop node = Inr node' \<Longrightarrow>
     \<exists>ms. sent node' = sent node @ ms
       \<and> (\<forall>k c. lastApplied node < k \<and> k \<le> lastApplied node'
              \<and> pendingCommands node k = Some c
            \<longrightarrow> (sender c, commandApplied) \<in> set ms)"
proof (induction node arbitrary: node' rule: applyLoop.induct)
  case (1 node)
  show ?case
  proof (cases "commitIndex node > lastApplied node")
    case False
    with "1.prems" show ?thesis by (auto simp: applyLoop.simps[of node])
  next
    case True
    let ?n1 = "node\<lparr>lastApplied := lastApplied node + 1\<rparr>"
    show ?thesis
    proof (cases "lastApplied ?n1 - 1 < length (log ?n1)")
      case False
      with True "1.prems" show ?thesis by (simp add: applyLoop.simps[of node])
    next
      case inr: True
      let ?n2 = "applyEntry ?n1"
      have eq: "applyLoop ?n2 = Inr node'"
        using True inr "1.prems" by (simp add: applyLoop.simps[of node])
      from inr have inr': "\<not> \<not> lastApplied ?n1 - 1 < length (log ?n1)" by simp
      from "1.IH"[OF True refl inr' eq] obtain ms2 where
        ms2: "sent node' = sent ?n2 @ ms2"
          "\<forall>k c. lastApplied ?n2 < k \<and> k \<le> lastApplied node'
              \<and> pendingCommands ?n2 k = Some c
            \<longrightarrow> (sender c, commandApplied) \<in> set ms2" by blast
      from applyEntry_sent_new[of ?n1] obtain ms1 where
        ms1: "sent ?n2 = sent node @ ms1"
          "\<forall>c. pendingCommands node (lastApplied node + 1) = Some c
             \<longrightarrow> (sender c, commandApplied) \<in> set ms1" by auto
      have la: "lastApplied ?n2 = lastApplied node + 1" by simp
      have pc: "pendingCommands ?n2 = (pendingCommands node)(lastApplied node + 1 := None)"
        by (simp add: applyEntry_pending)
      have "\<forall>k c. lastApplied node < k \<and> k \<le> lastApplied node'
              \<and> pendingCommands node k = Some c
            \<longrightarrow> (sender c, commandApplied) \<in> set (ms1 @ ms2)"
      proof (intro allI impI)
        fix k c
        assume h: "lastApplied node < k \<and> k \<le> lastApplied node'
              \<and> pendingCommands node k = Some c"
        show "(sender c, commandApplied) \<in> set (ms1 @ ms2)"
        proof (cases "k = lastApplied node + 1")
          case True
          with h ms1(2) show ?thesis by simp
        next
          case False
          with h have "lastApplied ?n2 < k \<and> k \<le> lastApplied node'
              \<and> pendingCommands ?n2 k = Some c"
            unfolding la pc by simp
          with ms2(2) show ?thesis by auto
        qed
      qed
      moreover have "sent node' = sent node @ (ms1 @ ms2)" using ms1(1) ms2(1) by simp
      ultimately show ?thesis by blast
    qed
  qed
qed

lemma handleExternalTerm_sent [simp]: "sent (handleExternalTerm t node) = sent node"
  by (simp add: handleExternalTerm_def)

lemma sendAppendEntries_sent:
  "\<exists>ms. sent (nodeOf (case sendAppendEntries act p n of
                         Inl q \<Rightarrow> Inl q | Inr (err, n2) \<Rightarrow> Inr n2)) = sent n @ ms"
proof -
  obtain ms where "nodeOf (case sendAppendEntries act p n of
                         Inl q \<Rightarrow> Inl q | Inr (err, n2) \<Rightarrow> Inr n2) = n\<lparr>sent := sent n @ ms\<rparr>"
    using sendAppendEntries_nodeOf by blast
  then have "sent (nodeOf (case sendAppendEntries act p n of
                         Inl q \<Rightarrow> Inl q | Inr (err, n2) \<Rightarrow> Inr n2)) = sent n @ ms"
    by simp
  then show ?thesis by blast
qed

lemma handleAppendEntriesResult_sent:
  "\<exists>ms. sent (nodeOf (handleAppendEntriesResult act msg node)) = sent node @ ms"
proof (cases "map_of (nodes node) (act_Text act (aer_PID msg))")
  case None
  then show ?thesis by (simp add: handleAppendEntriesResult_def)
next
  case (Some metadata)
  show ?thesis
  proof (cases "aer_Success msg")
    case True
    with Some show ?thesis by (simp add: handleAppendEntriesResult_def Let_def)
  next
    case False
    show ?thesis
    proof (cases "nextIndex metadata > 1")
      case True
      with Some False
        sendAppendEntries_sent[of act "pid metadata"
          "node\<lparr>nodes := AList.update (act_Text act (aer_PID msg))
                    (metadata\<lparr>nextIndex := nextIndex metadata - 1\<rparr>) (nodes node)\<rparr>"]
      show ?thesis by (simp add: handleAppendEntriesResult_def Let_def)
    next
      case f: False
      with Some False
        sendAppendEntries_sent[of act "pid metadata"
          "node\<lparr>nodes := AList.update (act_Text act (aer_PID msg)) metadata (nodes node)\<rparr>"]
      show ?thesis by (simp add: handleAppendEntriesResult_def Let_def)
    qed
  qed
qed

lemma handleRequestVoteResult_sent:
  "\<exists>ms. sent (nodeOf (handleRequestVoteResult act msg node)) = sent node @ ms"
proof (cases "rvr_VoteGranted msg \<and> rvr_Term msg = currentTerm node
       \<and> \<not> pidEquals (leader node) (Some (act_PID act))
       \<and> votesOverHalf (votes node + 1) (length (nodes node))")
  case False
  then show ?thesis by (auto simp: handleRequestVoteResult_def Let_def)
next
  case True
  define node3 where "node3 = node\<lparr>votes := votes node + 1, leader := Some (act_PID act),
      nodes := map (\<lambda>(k, metadata).
                 (k, metadata\<lparr>nextIndex := length (log node) + 1, matchIndex := 0\<rparr>))
               (nodes node)\<rparr>"
  obtain ms where "nodeOf (sendAppendEntriesAll act node3) = node3\<lparr>sent := sent node3 @ ms\<rparr>"
    using sendAppendEntriesAll_frame by blast
  then have "sent (nodeOf (sendAppendEntriesAll act node3)) = sent node @ ms"
    by (simp add: node3_def)
  moreover have "handleRequestVoteResult act msg node = sendAppendEntriesAll act node3"
    using True by (simp add: handleRequestVoteResult_def Let_def node3_def
        lastLogIndexAndTerm_def)
  ultimately show ?thesis by auto
qed

lemma handleCommand_sent:
  "\<exists>ms. sent (nodeOf (handleCommand act cmd node)) = sent node @ ms"
proof (cases "pidEquals (leader node) (Some (act_PID act))")
  case False
  then show ?thesis by (simp add: handleCommand_def)
next
  case True
  define node2 where "node2 = node\<lparr>log := log node @ [\<lparr>le_Command = cmd, le_Term = currentTerm node\<rparr>],
      pendingCommands := (pendingCommands node)
        (Suc (length (log node)) \<mapsto> \<lparr>sender = act_Sender act\<rparr>)\<rparr>"
  obtain ms where "nodeOf (sendAppendEntriesAll act node2) = node2\<lparr>sent := sent node2 @ ms\<rparr>"
    using sendAppendEntriesAll_frame by blast
  then have "sent (nodeOf (sendAppendEntriesAll act node2)) = sent node @ ms"
    by (simp add: node2_def)
  moreover have "handleCommand act cmd node = sendAppendEntriesAll act node2"
    using True by (simp add: handleCommand_def Let_def node2_def)
  ultimately show ?thesis by auto
qed

lemma fold_send_sent:
  "sent (fold (\<lambda>m. send (f m) (g m)) l node) = sent node @ map (\<lambda>m. (f m, g m)) l"
  by (induction l arbitrary: node) simp_all

lemma startElection_sent:
  "\<exists>ms. sent (startElection act node) = sent node @ ms"
  by (simp add: startElection_def Let_def case_prod_beta fold_send_sent)

lemma checkTimers_sent:
  "\<exists>ms. sent (nodeOf (checkTimers act node)) = sent node @ ms"
proof (cases "act_Fired act")
  case NoTimerFired
  then show ?thesis by (simp add: checkTimers_def)
next
  case ElectionFired
  obtain ms where "sent (startElection act (node\<lparr>electionTimer := Suc (electionTimer node)\<rparr>))
      = sent node @ ms"
    using startElection_sent[of act "node\<lparr>electionTimer := Suc (electionTimer node)\<rparr>"]
    by auto
  with ElectionFired show ?thesis by (simp add: checkTimers_def Let_def)
next
  case HeartbeatFired
  let ?n1 = "node\<lparr>heartbeatTimer := Suc (heartbeatTimer node)\<rparr>"
  obtain ms where ms: "nodeOf (sendAppendEntriesAll act ?n1) = ?n1\<lparr>sent := sent ?n1 @ ms\<rparr>"
    using sendAppendEntriesAll_frame by blast
  show ?thesis
  proof (cases "pidEquals (leader node) (Some (act_PID act))")
    case False
    with HeartbeatFired show ?thesis by (simp add: checkTimers_def Let_def)
  next
    case True
    show ?thesis
    proof (cases "sendAppendEntriesAll act ?n1")
      case (Inl p)
      with ms True HeartbeatFired show ?thesis by (simp add: checkTimers_def Let_def)
    next
      case (Inr n2)
      with ms True HeartbeatFired show ?thesis by (simp add: checkTimers_def Let_def)
    qed
  qed
qed

lemma handleActiveNodes_sent [simp]:
  "sent (handleActiveNodes act ps node) = sent node"
  by (simp add: handleActiveNodes_def Let_def)

lemma dispatch_sent:
  "\<exists>ms. sent (nodeOf (dispatch act m node)) = sent node @ ms"
proof (cases m)
  case (MsgAppendEntries msg)
  then show ?thesis
    by (simp add: handleAppendEntries_nodeOf appendEntriesResult_def)
next
  case (MsgRequestVote msg)
  then show ?thesis by (simp add: handleRequestVote_nodeOf)
next
  case (MsgAppendEntriesResult msg)
  with handleAppendEntriesResult_sent[of act msg "handleExternalTerm (aer_Term msg) node"]
  show ?thesis by simp
next
  case (MsgRequestVoteResult msg)
  with handleRequestVoteResult_sent[of act msg "handleExternalTerm (rvr_Term msg) node"]
  show ?thesis by simp
next
  case (MsgCommand cmd)
  with handleCommand_sent[of act cmd node] show ?thesis by simp
next
  case MsgCheckTimers
  with checkTimers_sent[of act node] show ?thesis by simp
qed simp_all

lemma updateStateMachine_replies:
  assumes "updateStateMachine act node = Inr node'"
  shows "\<exists>ms. sent node' = sent node @ ms
       \<and> (\<forall>k c. lastApplied node < k \<and> k \<le> lastApplied node'
              \<and> pendingCommands node k = Some c
            \<longrightarrow> (sender c, commandApplied) \<in> set ms)"
proof -
  from assms obtain n1 where n1: "applyLoop n1 = Inr node'"
    "pendingCommands n1 = pendingCommands node" "lastApplied n1 = lastApplied node"
    "sent n1 = sent node"
    by (rule updateStateMachine_Inr)
  from applyLoop_replies[OF n1(1)] show ?thesis unfolding n1(2,3,4) .
qed

lemma Receive_Inr:
  assumes "Receive act m node = Inr node'"
  obtains n1 where "dispatch act m node = Inr n1" "updateStateMachine act n1 = Inr node'"
  using assms by (cases "dispatch act m node") (simp_all add: Receive_def)

lemma Receive_pending:
  assumes "Receive act m node = Inr node'"
  shows "lastApplied node \<le> lastApplied node'"
    and "pendingCommands node' k =
          (if lastApplied node < k \<and> k \<le> lastApplied node' then None
           else pendingAfterHandler act m node k)"
    and "lastApplied node < k \<Longrightarrow> k \<le> lastApplied node'
         \<Longrightarrow> pendingAfterHandler act m node k = Some c
         \<Longrightarrow> (sender c, commandApplied) \<in> set (drop (length (sent node)) (sent node'))"
proof -
  from assms obtain n1 where n1: "dispatch act m node = Inr n1"
    "updateStateMachine act n1 = Inr node'" by (rule Receive_Inr)
  have la: "lastApplied n1 = lastApplied node"
    using dispatch_lastApplied[of act m node] n1 by simp
  have pc: "pendingCommands n1 = pendingAfterHandler act m node"
    using dispatch_pending[of act m node] n1 by simp
  note u = updateStateMachine_pending[OF n1(2), unfolded la pc]
  from u show "lastApplied node \<le> lastApplied node'" by blast
  from u show "pendingCommands node' k =
          (if lastApplied node < k \<and> k \<le> lastApplied node' then None
           else pendingAfterHandler act m node k)" by blast
  from dispatch_sent[of act m node] n1 obtain ms0 where
    ms0: "sent n1 = sent node @ ms0" by auto
  from updateStateMachine_replies[OF n1(2), unfolded la pc] obtain ms where
    ms: "sent node' = sent n1 @ ms"
      "\<forall>k c. lastApplied node < k \<and> k \<le> lastApplied node'
              \<and> pendingAfterHandler act m node k = Some c
            \<longrightarrow> (sender c, commandApplied) \<in> set ms" by blast
  have "drop (length (sent node)) (sent node') = ms0 @ ms" using ms0 ms(1) by simp
  with ms(2) show "lastApplied node < k \<Longrightarrow> k \<le> lastApplied node'
      \<Longrightarrow> pendingAfterHandler act m node k = Some c
      \<Longrightarrow> (sender c, commandApplied) \<in> set (drop (length (sent node)) (sent node'))"
    by auto
qed

text \<open>
  C4, as the code has it. The term advance, which demotes a leader, leaves
  \<open>pendingCommands\<close> as it is. The handler of a message leaves the map as
  \<open>pendingAfterHandler\<close> says: only \<open>Initialized\<close> (a new map) and the leader's
  \<open>handleCommand\<close> (the sender at the index of the new entry, over an entry the map
  held there) change it. When \<open>Receive\<close> returns, the map is the one the handler left
  without the indices applied in this step, from \<open>lastApplied + 1\<close> to the new
  \<open>lastApplied\<close>, and the client of each entry so removed is sent the success reply in
  this step.
\<close>

theorem pendingCommands_removed_on_apply:
  "pendingCommands (handleExternalTerm T node) = pendingCommands node
   \<and> pendingCommands (nodeOf (dispatch act m node)) = pendingAfterHandler act m node
   \<and> (Receive act m node = Inr node' \<longrightarrow>
        lastApplied node \<le> lastApplied node'
        \<and> pendingCommands node' k =
            (if lastApplied node < k \<and> k \<le> lastApplied node' then None
             else pendingAfterHandler act m node k)
        \<and> (lastApplied node < k \<and> k \<le> lastApplied node'
             \<and> pendingAfterHandler act m node k = Some c
            \<longrightarrow> (sender c, commandApplied)
                  \<in> set (drop (length (sent node)) (sent node'))))"
  using Receive_pending(1)[of act m node node']
    Receive_pending(2)[of act m node node' k]
    Receive_pending(3)[of act m node node' k c]
    dispatch_pending[of act m node]
  by simp

lemma demotedA_eval:
  "\<not> isl (Receive (ctx ''A'' ''B'') (MsgAppendEntries heartbeatB2) leaderA)
   \<and> leader demotedA = Some ''B'' \<and> currentTerm demotedA = 2
   \<and> lastApplied leaderA = 0 \<and> lastApplied demotedA = 1
   \<and> pendingCommands leaderA 1 = Some \<lparr>sender = Some ''client''\<rparr>
   \<and> pendingCommands demotedA 1 = None
   \<and> sent leaderA = []
   \<and> sent demotedA
       = [(Some ''B'', MsgAppendEntriesResult
                        \<lparr>aer_PID = ''A'', aer_Term = 2, aer_Success = True\<rparr>),
          (Some ''client'', commandApplied)]"
  unfolding demotedA_def
  by (simp add: eval_defs leaderA_def heartbeatB2_def commandApplied_def)

lemma staleLeaderA2_eval:
  "\<not> isl (Receive (ctx ''A'' ''client3'') (MsgCommand ''y=2'') staleLeaderA)
   \<and> lastApplied staleLeaderA = 0 \<and> lastApplied staleLeaderA2 = 0
   \<and> length (log staleLeaderA) = 1 \<and> length (log staleLeaderA2) = 2
   \<and> pendingCommands staleLeaderA 2 = Some \<lparr>sender = Some ''client2''\<rparr>
   \<and> pidEquals (leader staleLeaderA) (Some (act_PID (ctx ''A'' ''client3'')))
   \<and> map fst (sent staleLeaderA2) = [Some ''B'', Some ''C'']"
  unfolding staleLeaderA2_def
  by (simp add: eval_defs staleLeaderA_def leaderA_def handleCommand_def
        sendAppendEntriesAll_def sendAppendEntries_def)

text \<open>
  The leader A of term 1 handles the message of B, the leader of term 2, that commits
  index 1: A is demoted in this step, the entry of its log is applied, the pending
  command is removed and the client is sent the success reply. And when A, a leader
  with a stale entry at index 2 of the map, handles the command of another client, the
  new entry of the log has index 2 and the map holds the new client there; the old one
  is sent nothing.
\<close>

theorem pendingCommands_removed_on_apply_witness:
  "Receive (ctx ''A'' ''B'') (MsgAppendEntries heartbeatB2) leaderA = Inr demotedA
   \<and> leader demotedA = Some ''B'' \<and> currentTerm demotedA = 2
   \<and> lastApplied leaderA < 1 \<and> 1 \<le> lastApplied demotedA
   \<and> pendingAfterHandler (ctx ''A'' ''B'') (MsgAppendEntries heartbeatB2) leaderA 1
       = Some \<lparr>sender = Some ''client''\<rparr>
   \<and> pendingCommands demotedA 1 = None
   \<and> (Some ''client'', commandApplied)
       \<in> set (drop (length (sent leaderA)) (sent demotedA))
   \<and> Receive (ctx ''A'' ''client3'') (MsgCommand ''y=2'') staleLeaderA = Inr staleLeaderA2
   \<and> pendingCommands staleLeaderA 2 = Some \<lparr>sender = Some ''client2''\<rparr>
   \<and> pendingCommands staleLeaderA2 2 = Some \<lparr>sender = Some ''client3''\<rparr>
   \<and> map fst (sent staleLeaderA2) = [Some ''B'', Some ''C'']"
proof -
  have r1: "Receive (ctx ''A'' ''B'') (MsgAppendEntries heartbeatB2) leaderA = Inr demotedA"
    unfolding demotedA_def using demotedA_eval by (intro not_isl_Inr) simp
  have h1: "lastApplied leaderA < 1 \<and> 1 \<le> lastApplied demotedA
      \<and> pendingAfterHandler (ctx ''A'' ''B'') (MsgAppendEntries heartbeatB2) leaderA 1
          = Some \<lparr>sender = Some ''client''\<rparr>"
    using demotedA_eval by simp
  from pendingCommands_removed_on_apply[where m = "MsgAppendEntries heartbeatB2"
      and act = "ctx ''A'' ''B''" and node = leaderA and node' = demotedA and k = 1
      and c = "\<lparr>sender = Some ''client''\<rparr>"] r1 h1
  have p1: "pendingCommands demotedA 1 = None
      \<and> (Some ''client'', commandApplied)
          \<in> set (drop (length (sent leaderA)) (sent demotedA))"
    by simp
  have r2: "Receive (ctx ''A'' ''client3'') (MsgCommand ''y=2'') staleLeaderA
      = Inr staleLeaderA2"
    unfolding staleLeaderA2_def using staleLeaderA2_eval by (intro not_isl_Inr) simp
  have h2: "pendingAfterHandler (ctx ''A'' ''client3'') (MsgCommand ''y=2'') staleLeaderA 2
      = Some \<lparr>sender = Some ''client3''\<rparr>"
    using staleLeaderA2_eval by (simp add: ctx_def)
  from pendingCommands_removed_on_apply[where m = "MsgCommand ''y=2''"
      and act = "ctx ''A'' ''client3''" and node = staleLeaderA and node' = staleLeaderA2
      and k = 2] r2 h2 staleLeaderA2_eval
  have p2: "pendingCommands staleLeaderA2 2 = Some \<lparr>sender = Some ''client3''\<rparr>"
    by simp
  from r1 h1 p1 r2 p2 demotedA_eval staleLeaderA2_eval show ?thesis by blast
qed

text \<open>
  C4 as stated fails: the leader A of term 1 holds a pending command at index 1 and
  handles B's RequestVote of term 2. It is demoted (no leader, term 2) and grants the
  vote; the pending command is still in the map, and the one message sent is the vote
  result.
\<close>

theorem pendingCommands_kept_on_demotion:
  "pidEquals (leader leaderA) (Some ''A'')
   \<and> pendingCommands leaderA 1 = Some \<lparr>sender = Some ''client''\<rparr>
   \<and> currentTerm leaderA < rv_Term voteForB2
   \<and> \<not> isl (Receive (ctx ''A'' ''B'') (MsgRequestVote voteForB2) leaderA)
   \<and> leader (nodeOf (Receive (ctx ''A'' ''B'') (MsgRequestVote voteForB2) leaderA)) = None
   \<and> currentTerm (nodeOf (Receive (ctx ''A'' ''B'') (MsgRequestVote voteForB2) leaderA)) = 2
   \<and> pendingCommands (nodeOf (Receive (ctx ''A'' ''B'') (MsgRequestVote voteForB2) leaderA)) 1
       = Some \<lparr>sender = Some ''client''\<rparr>
   \<and> sent (nodeOf (Receive (ctx ''A'' ''B'') (MsgRequestVote voteForB2) leaderA))
       = [(Some ''B'', MsgRequestVoteResult \<lparr>rvr_Term = 2, rvr_VoteGranted = True\<rparr>)]"
  by (simp add: eval_defs handleRequestVote_def requestVoteResult_def leaderA_def voteForB2_def)

section \<open>The leader's commit rule\<close>

text \<open>
  What the scan does when its bound has not wrapped: it leaves \<open>commitIndex\<close> alone
  when no index above it passes the test, and otherwise sets it to the greatest index, up
  to the start of the scan, that passes. With two peers the test asks for
  \<open>matchIndex >= i\<close> of both.
\<close>

lemma commitScan_rule:
  assumes "commitIndex node \<noteq> 2 ^ 64 - 1"
  shows "(commitIndex (nodeOf (commitScan node n)) = commitIndex node
      \<and> (\<forall>i. commitIndex node < i \<and> i \<le> n \<longrightarrow> \<not> committable node i))
   \<or> (commitIndex node < commitIndex (nodeOf (commitScan node n))
       \<and> commitIndex (nodeOf (commitScan node n)) \<le> n
       \<and> committable node (commitIndex (nodeOf (commitScan node n)))
       \<and> (\<forall>i. commitIndex (nodeOf (commitScan node n)) < i \<and> i \<le> n
              \<longrightarrow> \<not> committable node i))"
proof (induction n)
  case 0
  show ?case using assms by (simp add: inc64_0)
next
  case (Suc j)
  have b: "inc64 (commitIndex node) = commitIndex node + 1" using assms by (rule inc64_le)
  show ?case
  proof (cases "Suc j \<ge> commitIndex node + 1")
    case False
    then have "\<forall>i. commitIndex node < i \<and> i \<le> Suc j \<longrightarrow> \<not> committable node i"
      by auto
    moreover have "commitScan node (Suc j) = Inr node" using False b by simp
    ultimately show ?thesis by simp
  next
    case True
    show ?thesis
    proof (cases "committable node (Suc j)")
      case c: True
      with True b show ?thesis by (simp add: committable_def)
    next
      case c: False
      with True b have eq: "commitScan node (Suc j) = commitScan node j"
        by (auto simp: committable_def)
      from Suc.IH c show ?thesis unfolding eq
        by (auto simp: le_Suc_eq)
    qed
  qed
qed

lemma committable_two_peers:
  "length (nodes node) = 2 \<Longrightarrow>
   committable node i \<longleftrightarrow>
     (le_Term (log node ! (i - 1)) = currentTerm node
      \<and> (\<forall>metadata \<in> set (map snd (nodes node)). matchIndex metadata \<ge> i))"
proof -
  assume l: "length (nodes node) = 2"
  then obtain a b where ab: "nodes node = [a, b]"
    by (cases "nodes node"; cases "tl (nodes node)") auto
  show ?thesis by (auto simp: committable_def matched_def ab)
qed

text \<open>
  \<open>matchIndex\<close> is written by \<open>handleAppendEntriesResult\<close> only, for the peer found
  under the protobuf text of the PID in the message. When that text is no key of the
  table the handler changes nothing; so it is in the examples, where B's acknowledgement
  leaves the leader A as it is.
\<close>

lemma handleAppendEntriesResult_miss:
  "map_of (nodes node) (act_Text act (aer_PID msg)) = None \<Longrightarrow>
   dispatch act (MsgAppendEntriesResult msg) node = Inr (handleExternalTerm (aer_Term msg) node)"
  by (simp add: handleAppendEntriesResult_def)

lemma leaderA_acknowledged:
  "Receive (ctx ''A'' ''B'')
     (MsgAppendEntriesResult \<lparr>aer_PID = ''B'', aer_Term = 1, aer_Success = True\<rparr>) leaderA
   = Inr leaderA"
  by (simp add: eval_defs handleAppendEntriesResult_def protoText_def leaderA_def)

lemma leaderAB_eval:
  "Receive (ctx ''A'' ''B'') MsgPing leaderAB = Inr (leaderAB\<lparr>sent := [(Some ''B'', MsgPong)]\<rparr>)"
  by (simp add: eval_defs leaderAB_def leaderA_def)

lemma leaderABC_eval:
  "Receive (ctx ''A'' ''C'') MsgPing leaderABC
     = Inr (leaderABC\<lparr>commitIndex := 1, lastApplied := 1, pendingCommands := Map.empty,
                       sent := [(Some ''C'', MsgPong), (Some ''client'', commandApplied)],
                       handled := [''x=1'']\<rparr>)"
  by (simp add: eval_defs leaderABC_def leaderA_def commandApplied_def)

lemma soloRun_eval:
  "ReceiveAll soloRun (NewNode exampleConfig)
     = Inr ((NewNode exampleConfig)
              \<lparr>leader := Some ''A'', votes := 1,
               log := [\<lparr>le_Command = ''x=1'', le_Term = 0\<rparr>],
               pendingCommands := [1 \<mapsto> \<lparr>sender = Some ''client''\<rparr>],
               electionTimer := 1, heartbeatTimer := 1\<rparr>)"
  by (simp add: eval_defs soloRun_def handleRequestVoteResult_def votesOverHalf_def
        handleCommand_def sendAppendEntriesAll_def)

text \<open>
  C1 at the leader A of a cluster of three, with its entry of the current term at
  index 1 and \<open>commitIndex = 0\<close>. When \<open>matchIndex\<close> of B is 1 and that of C is 0, A and
  B, two of the three, hold the entry; A handles a message (a Ping) and the advance step
  leaves \<open>commitIndex\<close> at 0, since \<open>matched\<close> counts the peers only and 1 is not more
  than half of 2. When \<open>matchIndex\<close> of C is 1 as well, the step commits and applies the
  entry. And a node with no peer that a vote has made the leader appends a client's
  command and does not commit it: of no peer, none is more than half.
\<close>

theorem leader_commit_needs_both_peers:
  "leader leaderAB = Some ''A'' \<and> length (nodes leaderAB) = 2 \<and> commitIndex leaderAB = 0
   \<and> length (log leaderAB) = 1 \<and> le_Term (log leaderAB ! 0) = currentTerm leaderAB
   \<and> map_of (nodes leaderAB) ''B'' = Some \<lparr>pid = ''B'', nextIndex = 2, matchIndex = 1\<rparr>
   \<and> map_of (nodes leaderAB) ''C'' = Some \<lparr>pid = ''C'', nextIndex = 2, matchIndex = 0\<rparr>
   \<and> \<not> isl (Receive (ctx ''A'' ''B'') MsgPing leaderAB)
   \<and> commitIndex (nodeOf (Receive (ctx ''A'' ''B'') MsgPing leaderAB)) = 0
   \<and> map_of (nodes leaderABC) ''B'' = Some \<lparr>pid = ''B'', nextIndex = 2, matchIndex = 1\<rparr>
   \<and> map_of (nodes leaderABC) ''C'' = Some \<lparr>pid = ''C'', nextIndex = 2, matchIndex = 1\<rparr>
   \<and> \<not> isl (Receive (ctx ''A'' ''C'') MsgPing leaderABC)
   \<and> commitIndex (nodeOf (Receive (ctx ''A'' ''C'') MsgPing leaderABC)) = 1
   \<and> ReceiveAll soloRun (NewNode exampleConfig) = Inr soloLeader
   \<and> leader soloLeader = Some ''A'' \<and> nodes soloLeader = []
   \<and> log soloLeader = [\<lparr>le_Command = ''x=1'', le_Term = 0\<rparr>]
   \<and> currentTerm soloLeader = 0 \<and> commitIndex soloLeader = 0"
proof -
  have a: "leader leaderAB = Some ''A'' \<and> length (nodes leaderAB) = 2
     \<and> commitIndex leaderAB = 0
     \<and> length (log leaderAB) = 1 \<and> le_Term (log leaderAB ! 0) = currentTerm leaderAB
     \<and> map_of (nodes leaderAB) ''B'' = Some \<lparr>pid = ''B'', nextIndex = 2, matchIndex = 1\<rparr>
     \<and> map_of (nodes leaderAB) ''C'' = Some \<lparr>pid = ''C'', nextIndex = 2, matchIndex = 0\<rparr>
     \<and> map_of (nodes leaderABC) ''B'' = Some \<lparr>pid = ''B'', nextIndex = 2, matchIndex = 1\<rparr>
     \<and> map_of (nodes leaderABC) ''C'' = Some \<lparr>pid = ''C'', nextIndex = 2, matchIndex = 1\<rparr>"
    by (simp add: leaderAB_def leaderABC_def leaderA_def NewNode_def peer_def)
  have b: "\<not> isl (Receive (ctx ''A'' ''B'') MsgPing leaderAB)
     \<and> commitIndex (nodeOf (Receive (ctx ''A'' ''B'') MsgPing leaderAB)) = 0"
    unfolding leaderAB_eval by (simp add: leaderAB_def leaderA_def NewNode_def)
  have c: "\<not> isl (Receive (ctx ''A'' ''C'') MsgPing leaderABC)
     \<and> commitIndex (nodeOf (Receive (ctx ''A'' ''C'') MsgPing leaderABC)) = 1"
    unfolding leaderABC_eval by simp
  have d: "ReceiveAll soloRun (NewNode exampleConfig) = Inr soloLeader"
    unfolding soloLeader_def soloRun_eval by simp
  have e: "leader soloLeader = Some ''A'' \<and> nodes soloLeader = []
     \<and> log soloLeader = [\<lparr>le_Command = ''x=1'', le_Term = 0\<rparr>]
     \<and> currentTerm soloLeader = 0 \<and> commitIndex soloLeader = 0"
    unfolding soloLeader_def soloRun_eval by (simp add: NewNode_def)
  from a b c d e show ?thesis by blast
qed

end
